theory Spec2Isabelle
  imports Main "HOL-Library.Sublist"
begin

section \<open>Histories\<close>

text \<open>
  The methods invoked on a history object are recorded in the order of invocation, so
  that statements such as \<open>retrieve_new is never called\<close> can be written down.
\<close>

datatype hcall = CallSize | CallRetrieve "nat option" | CallRetrieveNew | CallClear

record 'r history =
  objects :: "'r list"
  retrieved_cursor :: nat
  calls :: "hcall list"

text \<open>
  The class TestHistory (fprime_gds.common.history.test) is used by api.py, but its source
  is absent; the four methods below follow section 4.2 of the specification. Each method
  also logs its own invocation.
\<close>

text \<open>
  Modelled from the spec: \<open>size()\<close> of section 4.2, the current record count.
\<close>

definition size_h :: "'r history \<Rightarrow> nat \<times> 'r history" where
  "size_h h = (length (objects h), h\<lparr>calls := calls h @ [CallSize]\<rparr>)"

text \<open>
  Modelled from the spec: \<open>retrieve(from)\<close> of section 4.2, a snapshot of all records at
  or after index \<open>from\<close>, in order; \<open>from\<close> omitted means from the start.
\<close>

definition retrieve :: "nat option \<Rightarrow> 'r history \<Rightarrow> 'r list \<times> 'r history" where
  "retrieve start h =
     ((case start of None \<Rightarrow> objects h | Some i \<Rightarrow> drop i (objects h)),
      h\<lparr>calls := calls h @ [CallRetrieve start]\<rparr>)"

text \<open>
  Modelled from the spec: \<open>retrieve_new()\<close> of section 4.2, which returns the records
  appended since the read cursor was last advanced by this call, then advances the cursor.
\<close>

definition retrieve_new :: "'r history \<Rightarrow> 'r list \<times> 'r history" where
  "retrieve_new h =
     (drop (retrieved_cursor h) (objects h),
      h\<lparr>retrieved_cursor := length (objects h), calls := calls h @ [CallRetrieveNew]\<rparr>)"

text \<open>
  Modelled from the spec: \<open>clear(predicate?)\<close> of section 4.2 and invariant (d) of
  section 3. Without a predicate every record is removed; with one, the records preceding
  the first record that satisfies it. The read cursor moves back by the number of records
  removed.
\<close>

definition clear :: "('r \<Rightarrow> bool) option \<Rightarrow> 'r history \<Rightarrow> 'r history" where
  "clear start h =
     (let kept = (case start of
                    None \<Rightarrow> []
                  | Some p \<Rightarrow> dropWhile (\<lambda>x. \<not> p x) (objects h))
      in h\<lparr>objects := kept,
           retrieved_cursor := retrieved_cursor h - (length (objects h) - length kept),
           calls := calls h @ [CallClear]\<rparr>)"

text \<open>
  Modelled from the spec: the receiver (section 2, data flow) appends decoded records to the
  registered histories; it runs outside api.py.
\<close>

definition data_callback :: "'r list \<Rightarrow> 'r history \<Rightarrow> 'r history" where
  "data_callback xs h = h\<lparr>objects := objects h @ xs\<rparr>"

section \<open>Process state: the alarm and the records still to arrive\<close>

text \<open>
  \<open>alarm\<close> is the pending SIGALRM of the process: \<open>Some n\<close> after \<open>signal.alarm(n)\<close>
  with \<open>n > 0\<close>, \<open>None\<close> when no alarm is armed (never armed, cancelled by
  \<open>signal.alarm(0)\<close>, or already delivered). \<open>handler\<close> tells whether
  \<open>_timeout_sig_handler\<close> is installed for SIGALRM.

  \<open>arrivals\<close> is what the surroundings will do while a search polls: its \<open>k\<close>-th element
  is the batch of records the receiver appends to the searched history before the \<open>k\<close>-th
  call of \<open>retrieve_new\<close>, and its length is the number of polls that complete before
  SIGALRM is delivered. When it is exhausted the alarm fires, the handler raises
  TimeoutException and the polling loop is left through its \<open>except\<close> clause. A signal
  that interrupts the processing of a batch leaves the results the same as that batch cut
  short, so whole batches suffice.
\<close>

record 'r env =
  alarm :: "nat option"
  handler :: bool
  arrivals :: "'r list list"

definition signal_alarm :: "nat \<Rightarrow> 'r env \<Rightarrow> 'r env" where
  "signal_alarm n e = e\<lparr>alarm := (if n = 0 then None else Some n)\<rparr>"

definition signal_signal :: "'r env \<Rightarrow> 'r env" where
  "signal_signal e = e\<lparr>handler := True\<rparr>"

definition alarm_fires :: "'r env \<Rightarrow> 'r env" where
  "alarm_fires e = e\<lparr>alarm := None, arrivals := []\<rparr>"

section \<open>Start cursors\<close>

text \<open>
  The \<open>start\<close> argument of a search: the string \<open>"NOW"\<close>, a literal index, or
  \<open>None\<close> (the default of the three search functions).
\<close>

datatype cursor = NOW | Index nat | FromStart

text \<open>Lines 783-784, 823-824 and 885-886: \<open>if start == self.NOW: start = history.size()\<close>.\<close>

definition resolve_start :: "cursor \<Rightarrow> 'r history \<Rightarrow> nat option \<times> 'r history" where
  "resolve_start start h =
     (case start of
        NOW \<Rightarrow> (let (n, h1) = size_h h in (Some n, h1))
      | Index i \<Rightarrow> (Some i, h)
      | FromStart \<Rightarrow> (None, h))"

section \<open>find_history_item\<close>

text \<open>
  The polling loop of lines 795-800, entered with the alarm armed. The first argument after
  the predicate is the remaining schedule of arrivals.
\<close>

fun item_poll ::
  "('r \<Rightarrow> bool) \<Rightarrow> 'r list list \<Rightarrow> 'r history \<Rightarrow> 'r env \<Rightarrow> 'r option \<times> 'r history \<times> 'r env"
where
  "item_poll search_pred [] h e = (None, h, alarm_fires e)"
| "item_poll search_pred (b # bs) h e =
     (let (new_items, h1) = retrieve_new (data_callback b h) in
      case find search_pred new_items of
        Some item \<Rightarrow> (Some item, h1, e\<lparr>arrivals := bs\<rparr>)
      | None \<Rightarrow> item_poll search_pred bs h1 e)"

definition find_history_item ::
  "('r \<Rightarrow> bool) \<Rightarrow> 'r history \<Rightarrow> cursor \<Rightarrow> nat \<Rightarrow> 'r env \<Rightarrow> 'r option \<times> 'r history \<times> 'r env"
where
  "find_history_item search_pred history start timeout e =
     (let (start1, h1) = resolve_start start history;
          (current, h2) = retrieve start1 h1
      in case find search_pred current of
           Some item \<Rightarrow> (Some item, h2, e)
         | None \<Rightarrow>
             if timeout \<noteq> 0
             then item_poll search_pred (arrivals e) h2 (signal_alarm timeout (signal_signal e))
             else (None, h2, e))"

section \<open>find_history_sequence\<close>

text \<open>
  A loop over a batch of records either leaves the function through a \<open>return\<close> inside
  the loop body, or runs to the end of the batch and hands its variables on.
\<close>

datatype ('a, 's) loop = Return 'a | Continue 's

text \<open>
  The loop body of lines 833-838 and 846-852. Both loops are entered only with a non-empty
  \<open>seq_preds\<close>, and leave as soon as \<open>seq_preds\<close> becomes empty; \<open>seq_preds[0]\<close> is
  the argument \<open>p\<close> and the rest of the list is \<open>ps\<close>. \<open>seq_preds.pop(0)\<close> makes the
  head of \<open>ps\<close> the new \<open>seq_preds[0]\<close>.
\<close>

fun seq_scan ::
  "('r \<Rightarrow> bool) \<Rightarrow> ('r \<Rightarrow> bool) list \<Rightarrow> 'r list \<Rightarrow> 'r list
     \<Rightarrow> ('r list, ('r \<Rightarrow> bool) \<times> ('r \<Rightarrow> bool) list \<times> 'r list) loop"
where
  "seq_scan p ps sequence [] = Continue (p, ps, sequence)"
| "seq_scan p ps sequence (item # items) =
     (if p item
      then (case ps of
              [] \<Rightarrow> Return (sequence @ [item])
            | q # qs \<Rightarrow> seq_scan q qs (sequence @ [item]) items)
      else seq_scan p ps sequence items)"

text \<open>The polling loop of lines 844-853; \<open>signal.alarm(0)\<close> precedes the return in it.\<close>

fun seq_poll ::
  "('r \<Rightarrow> bool) \<Rightarrow> ('r \<Rightarrow> bool) list \<Rightarrow> 'r list \<Rightarrow> 'r list list \<Rightarrow> 'r history \<Rightarrow> 'r env
     \<Rightarrow> 'r list \<times> 'r history \<times> 'r env"
where
  "seq_poll p ps sequence [] h e = (sequence, h, alarm_fires e)"
| "seq_poll p ps sequence (b # bs) h e =
     (let (new_items, h1) = retrieve_new (data_callback b h) in
      case seq_scan p ps sequence new_items of
        Return s \<Rightarrow> (s, h1, signal_alarm 0 (e\<lparr>arrivals := bs\<rparr>))
      | Continue (p1, ps1, sequence1) \<Rightarrow> seq_poll p1 ps1 sequence1 bs h1 e)"

definition find_history_sequence ::
  "('r \<Rightarrow> bool) list \<Rightarrow> 'r history \<Rightarrow> cursor \<Rightarrow> nat \<Rightarrow> 'r env \<Rightarrow> 'r list \<times> 'r history \<times> 'r env"
where
  "find_history_sequence seq_preds history start timeout e =
     (let (start1, h1) = resolve_start start history;
          (current, h2) = retrieve start1 h1
      in case seq_preds of
           [] \<Rightarrow> ([], h2, e)
         | p # ps \<Rightarrow>
             (case seq_scan p ps [] current of
                Return s \<Rightarrow> (s, h2, e)
              | Continue (p1, ps1, sequence1) \<Rightarrow>
                  if timeout \<noteq> 0
                  then seq_poll p1 ps1 sequence1 (arrivals e) h2
                         (signal_alarm timeout (signal_signal e))
                  else (sequence1, h2, e)))"

section \<open>find_history_count\<close>

datatype error = TypeError | AttributeError | KeyError

text \<open>
  The \<open>count\<close> argument: a predicate object, an \<open>int\<close>, or any other Python value
  (a string, a float, \<open>None\<close>, a list).
\<close>

datatype count_arg = CountPred "nat \<Rightarrow> bool" | CountInt int | CountOther

text \<open>
  Modelled from the spec: the module fprime_gds.common.testing_fw.predicates is absent.
  Section 4.1: \<open>equal_to(expected)\<close> is true iff the value equals \<open>expected\<close>.
\<close>

definition equal_to :: "'a \<Rightarrow> 'a \<Rightarrow> bool" where
  "equal_to expected actual = (actual = expected)"

text \<open>
  Modelled from the spec: \<open>always_true()\<close> of section 4.1, constantly true.
\<close>

definition always_true :: "'a \<Rightarrow> bool" where
  "always_true actual = True"

text \<open>Lines 878-883. \<open>count_pred\<close> is applied to \<open>len(objects)\<close>, a natural number.\<close>

definition get_count_pred :: "count_arg \<Rightarrow> error + (nat \<Rightarrow> bool)" where
  "get_count_pred count =
     (case count of
        CountPred cp \<Rightarrow> Inr cp
      | CountInt n \<Rightarrow> Inr (\<lambda>len. equal_to n (int len))
      | CountOther \<Rightarrow> Inl TypeError)"

text \<open>The loop body of lines 907-912.\<close>

fun count_scan ::
  "(nat \<Rightarrow> bool) \<Rightarrow> ('r \<Rightarrow> bool) \<Rightarrow> 'r list \<Rightarrow> 'r list \<Rightarrow> ('r list, 'r list) loop"
where
  "count_scan count_pred search_pred objs [] = Continue objs"
| "count_scan count_pred search_pred objs (item # items) =
     (if search_pred item
      then (if count_pred (length (objs @ [item]))
            then Return (objs @ [item])
            else count_scan count_pred search_pred (objs @ [item]) items)
      else count_scan count_pred search_pred objs items)"

text \<open>The polling loop of lines 905-913.\<close>

fun count_poll ::
  "(nat \<Rightarrow> bool) \<Rightarrow> ('r \<Rightarrow> bool) \<Rightarrow> 'r list \<Rightarrow> 'r list list \<Rightarrow> 'r history \<Rightarrow> 'r env
     \<Rightarrow> 'r list \<times> 'r history \<times> 'r env"
where
  "count_poll count_pred search_pred objs [] h e = (objs, h, alarm_fires e)"
| "count_poll count_pred search_pred objs (b # bs) h e =
     (let (new_items, h1) = retrieve_new (data_callback b h) in
      case count_scan count_pred search_pred objs new_items of
        Return r \<Rightarrow> (r, h1, signal_alarm 0 (e\<lparr>arrivals := bs\<rparr>))
      | Continue objs1 \<Rightarrow> count_poll count_pred search_pred objs1 bs h1 e)"

definition find_history_count ::
  "count_arg \<Rightarrow> 'r history \<Rightarrow> ('r \<Rightarrow> bool) option \<Rightarrow> cursor \<Rightarrow> nat \<Rightarrow> 'r env
     \<Rightarrow> (error + 'r list) \<times> 'r history \<times> 'r env"
where
  "find_history_count count history search_pred start timeout e =
     (case get_count_pred count of
        Inl err \<Rightarrow> (Inl err, history, e)
      | Inr count_pred \<Rightarrow>
          (let (start1, h1) = resolve_start start history;
               (current, h2) = retrieve start1 h1;
               (search_pred1, objs) =
                  (case search_pred of
                     None \<Rightarrow> (always_true, current)
                   | Some sp \<Rightarrow> (sp, filter sp current))
           in if count_pred (length objs) then (Inr objs, h2, e)
              else if timeout \<noteq> 0
              then (case count_poll count_pred search_pred1 objs (arrivals e) h2
                           (signal_alarm timeout (signal_signal e)) of
                      (r, h3, e3) \<Rightarrow> (Inr r, h3, e3))
              else (Inr objs, h2, e)))"

section \<open>Auxiliary notions for stating the properties\<close>

text \<open>
  The records the initial scan of a search goes through, the history methods that the
  cursor resolution and the initial retrieval invoke, and the index a cursor stands for.
\<close>

definition initial_scan :: "cursor \<Rightarrow> 'r history \<Rightarrow> 'r list" where
  "initial_scan start h =
     (case start of
        NOW \<Rightarrow> drop (length (objects h)) (objects h)
      | Index i \<Rightarrow> drop i (objects h)
      | FromStart \<Rightarrow> objects h)"

definition initial_calls :: "cursor \<Rightarrow> 'r history \<Rightarrow> hcall list" where
  "initial_calls start h =
     (case start of
        NOW \<Rightarrow> [CallSize, CallRetrieve (Some (length (objects h)))]
      | Index i \<Rightarrow> [CallRetrieve (Some i)]
      | FromStart \<Rightarrow> [CallRetrieve None])"

definition start_index :: "cursor \<Rightarrow> 'r history \<Rightarrow> nat" where
  "start_index start h = (case start of NOW \<Rightarrow> length (objects h) | Index i \<Rightarrow> i | FromStart \<Rightarrow> 0)"

text \<open>The accumulator a sequence scan ends with, whichever way the loop was left.\<close>

fun loop_list :: "('r list, ('r \<Rightarrow> bool) \<times> ('r \<Rightarrow> bool) list \<times> 'r list) loop \<Rightarrow> 'r list" where
  "loop_list (Return s) = s"
| "loop_list (Continue (p, ps, s)) = s"

text \<open>
  The batches that successive calls of \<open>retrieve_new\<close> return when the receiver appends
  the given arrivals, one batch before each call.
\<close>

fun polled_batches :: "'r history \<Rightarrow> 'r list list \<Rightarrow> 'r list list" where
  "polled_batches h [] = []"
| "polled_batches h (b # bs) =
     (let (new_items, h1) = retrieve_new (data_callback b h)
      in new_items # polled_batches h1 bs)"

text \<open>
  The number of polls it takes to see \<open>n\<close> records satisfying \<open>sp\<close>, for \<open>n > 0\<close>.
\<close>

fun polls_needed :: "('r \<Rightarrow> bool) \<Rightarrow> nat \<Rightarrow> 'r list list \<Rightarrow> nat" where
  "polls_needed sp n [] = 0"
| "polls_needed sp n (b # bs) =
     (if n \<le> length (filter sp b) then 1
      else 1 + polls_needed sp (n - length (filter sp b)) bs)"

text \<open>
  The sequence search in the words of section 4.3 of the specification: a pointer into the
  ordered predicates, initially 0, and an accumulator of matched records. A candidate
  record that satisfies the predicate pointed to is appended to the accumulator and the
  pointer advances; any other record is passed over; once the pointer has passed the last
  predicate the accumulator is returned.
\<close>

fun greedy_match :: "('r \<Rightarrow> bool) list \<Rightarrow> nat \<Rightarrow> 'r list \<Rightarrow> 'r list \<Rightarrow> 'r list" where
  "greedy_match preds pointer accumulator [] = accumulator"
| "greedy_match preds pointer accumulator (record # records) =
     (if length preds \<le> pointer then accumulator
      else if (preds ! pointer) record
      then greedy_match preds (pointer + 1) (accumulator @ [record]) records
      else greedy_match preds pointer accumulator records)"

section \<open>Records, predicates and specifiers\<close>

text \<open>
  Modelled from the spec: the time stamp a record exposes (section 3). The code reads only
  its field \<open>useconds\<close>; the class TimeType (fprime.common.models.serialize.time_type)
  is absent, so the value \<open>TimeType()\<close> is a parameter, called \<open>epoch\<close>, of the
  functions that build it.
\<close>

record time_type =
  seconds :: int
  useconds :: int

text \<open>
  Modelled from the spec: a telemetry record (section 3), with an identifier, a value and a
  time stamp.
\<close>

record 'v ch_data =
  ch_id :: int
  ch_val :: 'v
  ch_time :: time_type

text \<open>
  Modelled from the spec: an event record (section 3), with an identifier, an ordered list
  of arguments and a time stamp.
\<close>

record 'v event_data =
  ev_id :: int
  ev_args :: "'v list"
  ev_time :: time_type

text \<open>
  Modelled from the spec: the telemetry kind predicate of section 4.1, true iff every
  supplied sub-predicate (identifier, value, time) is true, an absent one counting as true.
\<close>

definition telemetry_predicate ::
  "(int \<Rightarrow> bool) option \<Rightarrow> ('v \<Rightarrow> bool) option \<Rightarrow> (time_type \<Rightarrow> bool) option
     \<Rightarrow> 'v ch_data \<Rightarrow> bool"
where
  "telemetry_predicate id_pred value_pred time_pred r =
     ((case id_pred of None \<Rightarrow> True | Some p \<Rightarrow> p (ch_id r))
      \<and> (case value_pred of None \<Rightarrow> True | Some p \<Rightarrow> p (ch_val r))
      \<and> (case time_pred of None \<Rightarrow> True | Some p \<Rightarrow> p (ch_time r)))"

text \<open>
  Modelled from the spec: the event kind predicate of section 4.1, of the same shape, with
  the arguments in the place of the value.
\<close>

definition event_predicate ::
  "(int \<Rightarrow> bool) option \<Rightarrow> ('v list \<Rightarrow> bool) option \<Rightarrow> (time_type \<Rightarrow> bool) option
     \<Rightarrow> 'v event_data \<Rightarrow> bool"
where
  "event_predicate id_pred args_pred time_pred r =
     ((case id_pred of None \<Rightarrow> True | Some p \<Rightarrow> p (ev_id r))
      \<and> (case args_pred of None \<Rightarrow> True | Some p \<Rightarrow> p (ev_args r))
      \<and> (case time_pred of None \<Rightarrow> True | Some p \<Rightarrow> p (ev_time r)))"

text \<open>
  Modelled from the spec: what is expected of one argument (section 4.1): nothing, a literal
  or a predicate.
\<close>

datatype 'v arg_spec = ArgAny | ArgLiteral 'v | ArgPredicate "'v \<Rightarrow> bool"

fun arg_matches :: "'v arg_spec \<Rightarrow> 'v \<Rightarrow> bool" where
  "arg_matches ArgAny v = True"
| "arg_matches (ArgLiteral x) v = equal_to x v"
| "arg_matches (ArgPredicate p) v = p v"

text \<open>
  Modelled from the spec: \<open>args_predicate(expected_args)\<close> of section 4.1, true iff each
  position has no expectation or matches its literal or predicate; a length mismatch is
  false.
\<close>

definition args_predicate :: "'v arg_spec list \<Rightarrow> 'v list \<Rightarrow> bool" where
  "args_predicate expected actual =
     (length expected = length actual \<and> list_all2 arg_matches expected actual)"

text \<open>
  What a caller may hand over as channel or event specifier: an instance of the kind
  predicate, another predicate (over the identifier), a mnemonic or an identifier; as value:
  a predicate or a literal; as arguments: a predicate or a list of expectations.
\<close>

datatype name_or_id = Mnemonic string | Ident int

datatype 'r specifier = KindPredicate "'r \<Rightarrow> bool" | IdPredicate "int \<Rightarrow> bool" | Name name_or_id

datatype 'v value_spec = ValuePredicate "'v \<Rightarrow> bool" | ValueLiteral 'v

datatype 'v args_spec = ArgsPredicate "'v list \<Rightarrow> bool" | ArgsList "'v arg_spec list"

text \<open>
  The dictionaries of the pipeline: a name dictionary maps a mnemonic to the identifier of
  its template, of an identifier dictionary only the keys are used.
\<close>

record pipeline =
  channel_name_dictionary :: "string \<rightharpoonup> int"
  channel_id_dictionary :: "int \<rightharpoonup> string"
  event_name_dictionary :: "string \<rightharpoonup> int"
  event_id_dictionary :: "int \<rightharpoonup> string"

text \<open>Lines 297-327.\<close>

fun translate_telemetry_name :: "pipeline \<Rightarrow> name_or_id \<Rightarrow> error + int" where
  "translate_telemetry_name pl (Mnemonic channel) =
     (case channel_name_dictionary pl channel of
        Some i \<Rightarrow> Inr i
      | None \<Rightarrow> Inl KeyError)"
| "translate_telemetry_name pl (Ident channel) =
     (case channel_id_dictionary pl channel of
        Some n \<Rightarrow> Inr channel
      | None \<Rightarrow> Inl KeyError)"

text \<open>Lines 523-551.\<close>

fun translate_event_name :: "pipeline \<Rightarrow> name_or_id \<Rightarrow> error + int" where
  "translate_event_name pl (Mnemonic event) =
     (case event_name_dictionary pl event of
        Some i \<Rightarrow> Inr i
      | None \<Rightarrow> Inl KeyError)"
| "translate_event_name pl (Ident event) =
     (case event_id_dictionary pl event of
        Some n \<Rightarrow> Inr event
      | None \<Rightarrow> Inl KeyError)"

text \<open>Lines 329-356.\<close>

definition get_telemetry_predicate ::
  "pipeline \<Rightarrow> 'v ch_data specifier option \<Rightarrow> 'v value_spec option
     \<Rightarrow> (time_type \<Rightarrow> bool) option \<Rightarrow> error + ('v ch_data \<Rightarrow> bool)"
where
  "get_telemetry_predicate pl channel val time_pred =
     (case channel of
        Some (KindPredicate p) \<Rightarrow> Inr p
      | _ \<Rightarrow>
         (case (case channel of
                  Some (Name n) \<Rightarrow>
                    (case translate_telemetry_name pl n of
                       Inl err \<Rightarrow> Inl err
                     | Inr i \<Rightarrow> Inr (Some (equal_to i)))
                | Some (IdPredicate q) \<Rightarrow> Inr (Some q)
                | _ \<Rightarrow> Inr None) of
            Inl err \<Rightarrow> Inl err
          | Inr channel1 \<Rightarrow>
              (let val1 = (case val of
                             Some (ValueLiteral v) \<Rightarrow> Some (equal_to v)
                           | Some (ValuePredicate q) \<Rightarrow> Some q
                           | None \<Rightarrow> None)
               in Inr (telemetry_predicate channel1 val1 time_pred))))"

text \<open>Lines 553-579.\<close>

definition get_event_predicate ::
  "pipeline \<Rightarrow> 'v event_data specifier option \<Rightarrow> 'v args_spec option
     \<Rightarrow> (time_type \<Rightarrow> bool) option \<Rightarrow> error + ('v event_data \<Rightarrow> bool)"
where
  "get_event_predicate pl event args time_pred =
     (case event of
        Some (KindPredicate p) \<Rightarrow> Inr p
      | _ \<Rightarrow>
         (case (case event of
                  Some (Name n) \<Rightarrow>
                    (case translate_event_name pl n of
                       Inl err \<Rightarrow> Inl err
                     | Inr i \<Rightarrow> Inr (Some (equal_to i)))
                | Some (IdPredicate q) \<Rightarrow> Inr (Some q)
                | _ \<Rightarrow> Inr None) of
            Inl err \<Rightarrow> Inl err
          | Inr event1 \<Rightarrow>
              (let args1 = (case args of
                              Some (ArgsList xs) \<Rightarrow> Some (args_predicate xs)
                            | Some (ArgsPredicate q) \<Rightarrow> Some q
                            | None \<Rightarrow> None)
               in Inr (event_predicate event1 args1 time_pred))))"

section \<open>The facade: await_telemetry and await_event\<close>

text \<open>
  Modelled from the spec: the two classes of objects that reach \<open>find_history_item\<close>,
  Python binding arguments by position whatever their class. A predicate object offers
  evaluation only (section 4.1), so the attribute lookups \<open>history.size\<close> (line 784) and
  \<open>history.retrieve\<close> (line 786) on it raise AttributeError; a history offers
  \<open>size\<close>, \<open>retrieve\<close>, \<open>retrieve_new\<close> and \<open>clear\<close> (section 4.2) and cannot
  be called, so \<open>search_pred(item)\<close> (lines 788 and 798) on it raises TypeError as soon
  as there is an item to test.
\<close>

datatype 'r pyobj = PredObj "'r \<Rightarrow> bool" | HistObj "'r history"

text \<open>
  \<open>find_history_item\<close> as Python runs it on two objects, the first bound to the parameter
  \<open>search_pred\<close>, the second to the parameter \<open>history\<close>. The object returned beside
  the result is the second one as the call leaves it; the first one is never changed.
\<close>

definition find_history_item_py ::
  "'r pyobj \<Rightarrow> 'r pyobj \<Rightarrow> cursor \<Rightarrow> nat \<Rightarrow> 'r env \<Rightarrow> (error + 'r option) \<times> 'r pyobj \<times> 'r env"
where
  "find_history_item_py search_pred history start timeout e =
     (case history of
        PredObj q \<Rightarrow> (Inl AttributeError, history, e)
      | HistObj h \<Rightarrow>
          (case search_pred of
             PredObj p \<Rightarrow>
               (case find_history_item p h start timeout e of
                  (r, h1, e1) \<Rightarrow> (Inr r, HistObj h1, e1))
           | HistObj g \<Rightarrow>
               (case find_history_item (\<lambda>item. True) h start timeout e of
                  (None, h1, e1) \<Rightarrow> (Inr None, HistObj h1, e1)
                | (Some item, h1, e1) \<Rightarrow> (Inl TypeError, HistObj h1, e1))))"

text \<open>
  Lines 358-381. \<open>telemetry_history\<close> is the history owned by the test API
  (\<open>get_telemetry_test_history\<close>, lines 747-753). Line 381 passes \<open>history\<close> first and
  \<open>t_pred\<close> second. The history returned is the searched one as the call leaves it.
\<close>

definition await_telemetry ::
  "pipeline \<Rightarrow> 'v ch_data history \<Rightarrow> 'v ch_data specifier option \<Rightarrow> 'v value_spec option
     \<Rightarrow> (time_type \<Rightarrow> bool) option \<Rightarrow> 'v ch_data history option \<Rightarrow> cursor \<Rightarrow> nat
     \<Rightarrow> 'v ch_data env \<Rightarrow> (error + 'v ch_data option) \<times> 'v ch_data history \<times> 'v ch_data env"
where
  "await_telemetry pl telemetry_history channel val time_pred history start timeout e =
     (let history1 = (case history of None \<Rightarrow> telemetry_history | Some h \<Rightarrow> h) in
      case get_telemetry_predicate pl channel val time_pred of
        Inl err \<Rightarrow> (Inl err, history1, e)
      | Inr t_pred \<Rightarrow>
          (case find_history_item_py (HistObj history1) (PredObj t_pred) start timeout e of
             (r, obj, e1) \<Rightarrow> (r, history1, e1)))"

text \<open>Lines 581-604, with line 604 passing \<open>history\<close> first and \<open>e_pred\<close> second.\<close>

definition await_event ::
  "pipeline \<Rightarrow> 'v event_data history \<Rightarrow> 'v event_data specifier option \<Rightarrow> 'v args_spec option
     \<Rightarrow> (time_type \<Rightarrow> bool) option \<Rightarrow> 'v event_data history option \<Rightarrow> cursor \<Rightarrow> nat
     \<Rightarrow> 'v event_data env
     \<Rightarrow> (error + 'v event_data option) \<times> 'v event_data history \<times> 'v event_data env"
where
  "await_event pl event_history event args time_pred history start timeout e =
     (let history1 = (case history of None \<Rightarrow> event_history | Some h \<Rightarrow> h) in
      case get_event_predicate pl event args time_pred of
        Inl err \<Rightarrow> (Inl err, history1, e)
      | Inr e_pred \<Rightarrow>
          (case find_history_item_py (HistObj history1) (PredObj e_pred) start timeout e of
             (r, obj, e1) \<Rightarrow> (r, history1, e1)))"

text \<open>
  Lines 383-407, for comparison: \<open>await_telemetry_sequence\<close> passes the predicates first
  and the history second, the order of the parameters of \<open>find_history_sequence\<close>.
\<close>

fun get_telemetry_predicates ::
  "pipeline \<Rightarrow> 'v ch_data specifier list \<Rightarrow> error + ('v ch_data \<Rightarrow> bool) list"
where
  "get_telemetry_predicates pl [] = Inr []"
| "get_telemetry_predicates pl (channel # channels) =
     (case get_telemetry_predicate pl (Some channel) None None of
        Inl err \<Rightarrow> Inl err
      | Inr p \<Rightarrow>
          (case get_telemetry_predicates pl channels of
             Inl err \<Rightarrow> Inl err
           | Inr ps \<Rightarrow> Inr (p # ps)))"

definition await_telemetry_sequence ::
  "pipeline \<Rightarrow> 'v ch_data history \<Rightarrow> 'v ch_data specifier list \<Rightarrow> 'v ch_data history option
     \<Rightarrow> cursor \<Rightarrow> nat \<Rightarrow> 'v ch_data env
     \<Rightarrow> (error + 'v ch_data list) \<times> 'v ch_data history \<times> 'v ch_data env"
where
  "await_telemetry_sequence pl telemetry_history channels history start timeout e =
     (let history1 = (case history of None \<Rightarrow> telemetry_history | Some h \<Rightarrow> h) in
      case get_telemetry_predicates pl channels of
        Inl err \<Rightarrow> (Inl err, history1, e)
      | Inr seq_preds \<Rightarrow>
          (case find_history_sequence seq_preds history1 start timeout e of
             (r, h1, e1) \<Rightarrow> (Inr r, h1, e1)))"

section \<open>The state of the test API and the latest time\<close>

record 'v api =
  aggregate_telemetry_history :: "'v ch_data history"
  aggregate_event_history :: "'v event_data history"
  command_history :: "string history"
  telemetry_history :: "'v ch_data history"
  event_history :: "'v event_data history"
  latest_time :: int
  logger :: "string list option"
  printed :: "string list"

text \<open>
  Lines 26-53. The aggregate histories are those of the pipeline, the three test histories
  are new, \<open>latest_time\<close> starts as \<open>TimeType().useconds\<close>.
\<close>

definition api_init ::
  "time_type \<Rightarrow> 'v ch_data history \<Rightarrow> 'v event_data history \<Rightarrow> bool \<Rightarrow> 'v api"
where
  "api_init epoch channels events logname =
     \<lparr>aggregate_telemetry_history = channels,
      aggregate_event_history = events,
      command_history = \<lparr>objects = [], retrieved_cursor = 0, calls = []\<rparr>,
      telemetry_history = \<lparr>objects = [], retrieved_cursor = 0, calls = []\<rparr>,
      event_history = \<lparr>objects = [], retrieved_cursor = 0, calls = []\<rparr>,
      latest_time = useconds epoch,
      logger = (if logname then Some [] else None),
      printed = []\<rparr>"

text \<open>Lines 89-107. \<open>events[-1]\<close> is read only when \<open>events\<close> is not empty.\<close>

definition get_latest_fsw_time :: "time_type \<Rightarrow> 'v api \<Rightarrow> int \<times> 'v api" where
  "get_latest_fsw_time epoch a =
     (let (events, aeh) = retrieve None (aggregate_event_history a);
          e_time = (if length events > 0 then useconds (ev_time (last events))
                    else useconds epoch);
          (channels, ath) = retrieve None (aggregate_telemetry_history a);
          t_time = (if length channels > 0 then useconds (ch_time (last channels))
                    else useconds epoch);
          t = max e_time (max t_time (latest_time a))
      in (t, a\<lparr>aggregate_event_history := aeh, aggregate_telemetry_history := ath,
              latest_time := t\<rparr>))"

text \<open>
  Modelled from the spec: \<open>greater_or_equal(threshold)\<close> of section 4.1 on time stamps,
  which are ordered by seconds and then by microseconds.
\<close>

definition greater_than_or_equal_to :: "time_type \<Rightarrow> time_type \<Rightarrow> bool" where
  "greater_than_or_equal_to threshold t =
     (seconds threshold < seconds t
      \<or> (seconds threshold = seconds t \<and> useconds threshold \<le> useconds t))"

text \<open>Lines 109-130.\<close>

definition clear_histories :: "time_type option \<Rightarrow> 'v api \<Rightarrow> 'v api" where
  "clear_histories time_stamp a =
     (let a1 = (case time_stamp of
                  Some ts \<Rightarrow>
                    (let time_pred = greater_than_or_equal_to ts;
                         e_pred = event_predicate None None (Some time_pred);
                         t_pred = telemetry_predicate None None (Some time_pred)
                     in a\<lparr>event_history := clear (Some e_pred) (event_history a),
                          telemetry_history := clear (Some t_pred) (telemetry_history a)\<rparr>)
                | None \<Rightarrow>
                    a\<lparr>event_history := clear None (event_history a),
                      telemetry_history := clear None (telemetry_history a)\<rparr>)
      in a1\<lparr>command_history := clear None (command_history a1)\<rparr>)"

text \<open>Lines 64-74.\<close>

definition log_test_message :: "string \<Rightarrow> 'v api \<Rightarrow> 'v api" where
  "log_test_message msg a =
     (case logger a of
        None \<Rightarrow> a\<lparr>printed := printed a @ [msg]\<rparr>
      | Some lines \<Rightarrow> a\<lparr>logger := Some (lines @ [msg])\<rparr>)"

text \<open>Lines 76-87.\<close>

definition start_test_case :: "time_type \<Rightarrow> string \<Rightarrow> 'v api \<Rightarrow> 'v api" where
  "start_test_case epoch name a =
     (let (t, a1) = get_latest_fsw_time epoch a;
          a2 = log_test_message (CHR 0x0A # ''[STARTING CASE] '' @ name) a1
      in clear_histories None a2)"

text \<open>Lines 55-62.\<close>

definition teardown :: "'v api \<Rightarrow> 'v api" where
  "teardown a =
     (let a1 = clear_histories None a
      in case logger a1 of
           Some lines \<Rightarrow> a1\<lparr>logger := None\<rparr>
         | None \<Rightarrow> a1)"

text \<open>
  What can happen to one instance of the test API: the methods above; the receiver
  delivering a record to the aggregate history and to the registered test history of its
  kind; the user clearing the aggregate histories (the case the comment of line 85 names);
  and a search or await, which touches nothing but the history it runs on and leaves it in
  some state.
\<close>

datatype 'v api_op =
    GetLatestFswTime
  | StartTestCase string
  | ClearHistories "time_type option"
  | Teardown
  | LogTestMessage string
  | ReceiveTelemetry "'v ch_data"
  | ReceiveEvent "'v event_data"
  | AggregateHistoriesCleared
  | TelemetrySearched "'v ch_data history"
  | EventSearched "'v event_data history"

text \<open>One operation; the value beside the state is what \<open>get_latest_fsw_time\<close> returned.\<close>

fun api_step :: "time_type \<Rightarrow> 'v api_op \<Rightarrow> 'v api \<Rightarrow> int option \<times> 'v api" where
  "api_step epoch GetLatestFswTime a =
     (let (t, a1) = get_latest_fsw_time epoch a in (Some t, a1))"
| "api_step epoch (StartTestCase name) a = (None, start_test_case epoch name a)"
| "api_step epoch (ClearHistories time_stamp) a = (None, clear_histories time_stamp a)"
| "api_step epoch Teardown a = (None, teardown a)"
| "api_step epoch (LogTestMessage msg) a = (None, log_test_message msg a)"
| "api_step epoch (ReceiveTelemetry r) a =
     (None, a\<lparr>aggregate_telemetry_history := data_callback [r] (aggregate_telemetry_history a),
              telemetry_history := data_callback [r] (telemetry_history a)\<rparr>)"
| "api_step epoch (ReceiveEvent r) a =
     (None, a\<lparr>aggregate_event_history := data_callback [r] (aggregate_event_history a),
              event_history := data_callback [r] (event_history a)\<rparr>)"
| "api_step epoch AggregateHistoriesCleared a =
     (None, a\<lparr>aggregate_telemetry_history := clear None (aggregate_telemetry_history a),
              aggregate_event_history := clear None (aggregate_event_history a)\<rparr>)"
| "api_step epoch (TelemetrySearched h) a = (None, a\<lparr>telemetry_history := h\<rparr>)"
| "api_step epoch (EventSearched h) a = (None, a\<lparr>event_history := h\<rparr>)"

text \<open>
  A run of operations, with the values returned by the calls of
  \<open>get_latest_fsw_time\<close> in the order of the calls.
\<close>

fun api_run :: "time_type \<Rightarrow> 'v api_op list \<Rightarrow> 'v api \<Rightarrow> int list \<times> 'v api" where
  "api_run epoch [] a = ([], a)"
| "api_run epoch (op # ops) a =
     (let (r, a1) = api_step epoch op a;
          (rs, a2) = api_run epoch ops a1
      in ((case r of None \<Rightarrow> [] | Some t \<Rightarrow> [t]) @ rs, a2))"

section \<open>Basic facts about the three searches\<close>

lemma initial_retrieve:
  "(case resolve_start start h of (s1, h1) \<Rightarrow> retrieve s1 h1) =
     (initial_scan start h, h\<lparr>calls := calls h @ initial_calls start h\<rparr>)"
  by (cases start) (simp_all add: resolve_start_def size_h_def retrieve_def initial_scan_def initial_calls_def)

lemma find_history_item_unfold:
  "find_history_item p h start t e =
     (case find p (initial_scan start h) of
        Some item \<Rightarrow> (Some item, h\<lparr>calls := calls h @ initial_calls start h\<rparr>, e)
      | None \<Rightarrow> if t \<noteq> 0 then item_poll p (arrivals e) (h\<lparr>calls := calls h @ initial_calls start h\<rparr>) (signal_alarm t (signal_signal e))
                else (None, h\<lparr>calls := calls h @ initial_calls start h\<rparr>, e))"
proof -
  obtain s1 h1 where r: "resolve_start start h = (s1, h1)" by (cases "resolve_start start h")
  with initial_retrieve [of start h]
  have "retrieve s1 h1 = (initial_scan start h, h\<lparr>calls := calls h @ initial_calls start h\<rparr>)" by simp
  with r show ?thesis by (simp add: find_history_item_def)
qed

lemma find_history_sequence_unfold:
  "find_history_sequence sps h start t e =
     (case sps of [] \<Rightarrow> ([], h\<lparr>calls := calls h @ initial_calls start h\<rparr>, e)
      | p # ps \<Rightarrow>
         (case seq_scan p ps [] (initial_scan start h) of
            Return s \<Rightarrow> (s, h\<lparr>calls := calls h @ initial_calls start h\<rparr>, e)
          | Continue (p1, ps1, s1) \<Rightarrow>
              if t \<noteq> 0 then seq_poll p1 ps1 s1 (arrivals e) (h\<lparr>calls := calls h @ initial_calls start h\<rparr>) (signal_alarm t (signal_signal e))
              else (s1, h\<lparr>calls := calls h @ initial_calls start h\<rparr>, e)))"
proof -
  obtain s1 h1 where r: "resolve_start start h = (s1, h1)" by (cases "resolve_start start h")
  with initial_retrieve [of start h]
  have "retrieve s1 h1 = (initial_scan start h, h\<lparr>calls := calls h @ initial_calls start h\<rparr>)" by simp
  with r show ?thesis by (simp add: find_history_sequence_def)
qed

lemma find_history_count_unfold:
  "find_history_count c h sp start t e =
     (case get_count_pred c of Inl err \<Rightarrow> (Inl err, h, e)
      | Inr cp \<Rightarrow>
         (let sp1 = (case sp of None \<Rightarrow> always_true | Some q \<Rightarrow> q);
              objs = (case sp of None \<Rightarrow> initial_scan start h | Some q \<Rightarrow> filter q (initial_scan start h));
              h2 = h\<lparr>calls := calls h @ initial_calls start h\<rparr>
          in if cp (length objs) then (Inr objs, h2, e)
             else if t \<noteq> 0 then (case count_poll cp sp1 objs (arrivals e) h2 (signal_alarm t (signal_signal e)) of (r, h3, e3) \<Rightarrow> (Inr r, h3, e3))
             else (Inr objs, h2, e)))"
proof -
  obtain s1 h1 where r: "resolve_start start h = (s1, h1)" by (cases "resolve_start start h")
  with initial_retrieve [of start h]
  have "retrieve s1 h1 = (initial_scan start h, h\<lparr>calls := calls h @ initial_calls start h\<rparr>)" by simp
  with r show ?thesis by (cases sp) (simp_all add: find_history_count_def Let_def split: sum.splits)
qed




lemma initial_scan_drop: "initial_scan start h = drop (start_index start h) (objects h)"
  by (cases start) (simp_all add: initial_scan_def start_index_def)

lemma item_immediate_eq:
  "find_history_item p h start 0 e =
     (find p (initial_scan start h), h\<lparr>calls := calls h @ initial_calls start h\<rparr>, e)"
  by (simp add: find_history_item_unfold split: option.splits)



lemma find_drop_unique:
  assumes sk: "s \<le> k" and kl: "k < length xs" and pk: "p (xs ! k)"
    and uniq: "\<forall>j. s \<le> j \<and> j < length xs \<and> p (xs ! j) \<longrightarrow> j = k"
  shows "find p (drop s xs) = Some (xs ! k)"
proof -
  have 1: "k - s < length (drop s xs)" using sk kl by simp
  have 2: "drop s xs ! (k - s) = xs ! k" using sk kl by simp
  have 3: "\<forall>j<k - s. \<not> p (drop s xs ! j)"
  proof (intro allI impI notI)
    fix j assume j: "j < k - s" and pj: "p (drop s xs ! j)"
    have "drop s xs ! j = xs ! (s + j)" using j kl by simp
    with pj have "p (xs ! (s + j))" by simp
    moreover have "s \<le> s + j" "s + j < length xs" using j kl by simp_all
    ultimately have "s + j = k" using uniq by blast
    with j show False by simp
  qed
  have "\<exists>i<length (drop s xs). p (drop s xs ! i) \<and> xs ! k = drop s xs ! i
          \<and> (\<forall>j<i. \<not> p (drop s xs ! j))"
    using 1 2 3 pk by (intro exI[of _ "k - s"]) simp
  then show ?thesis by (simp only: find_Some_iff)
qed



lemma find_drop_none:
  assumes "\<forall>j. s \<le> j \<and> j < length xs \<longrightarrow> \<not> p (xs ! j)"
  shows "find p (drop s xs) = None"
proof -
  have "\<not> (\<exists>x. x \<in> set (drop s xs) \<and> p x)"
  proof
    assume "\<exists>x. x \<in> set (drop s xs) \<and> p x"
    then obtain x where "x \<in> set (drop s xs)" "p x" by blast
    then obtain i where "i < length (drop s xs)" "drop s xs ! i = x" by (auto simp: in_set_conv_nth)
    then have "s \<le> s + i \<and> s + i < length xs" "xs ! (s + i) = x" by simp_all
    with assms \<open>p x\<close> show False by blast
  qed
  then show ?thesis unfolding find_None_iff .
qed



lemma fst_retrieve:
  "fst (retrieve s h) = (case s of None \<Rightarrow> objects h | Some i \<Rightarrow> drop i (objects h))"
  by (simp add: retrieve_def)

lemma fst_resolve_start:
  "fst (resolve_start start h) =
     (case start of NOW \<Rightarrow> Some (length (objects h)) | Index i \<Rightarrow> Some i | FromStart \<Rightarrow> None)"
  by (cases start) (simp_all add: resolve_start_def size_h_def)

lemma fst_initial: "fst (retrieve (fst (resolve_start start h)) h) = initial_scan start h"
  by (cases start) (simp_all add: fst_retrieve fst_resolve_start initial_scan_def)

section \<open>The history methods a search invokes\<close>

lemma calls_retrieve_new:
  "calls (snd (retrieve_new (data_callback b h))) = calls h @ [CallRetrieveNew]"
  by (simp add: retrieve_new_def data_callback_def)

lemma item_poll_calls:
  "prefix (calls h) (calls (fst (snd (item_poll p bs h e))))"
proof (induction bs arbitrary: h)
  case Nil
  show ?case by simp
next
  case (Cons b bs)
  obtain new_items h1 where r: "retrieve_new (data_callback b h) = (new_items, h1)"
    by (cases "retrieve_new (data_callback b h)")
  then have c: "calls h1 = calls h @ [CallRetrieveNew]"
    using calls_retrieve_new [of b h] by simp
  show ?case
  proof (cases "find p new_items")
    case None
    with r have "item_poll p (b # bs) h e = item_poll p bs h1 e" by simp
    moreover have "prefix (calls h1) (calls (fst (snd (item_poll p bs h1 e))))"
      by (rule Cons.IH)
    ultimately show ?thesis using c by (simp add: append_prefixD)
  next
    case (Some x)
    with r have "item_poll p (b # bs) h e = (Some x, h1, e\<lparr>arrivals := bs\<rparr>)" by simp
    then show ?thesis using c by simp
  qed
qed

lemma seq_poll_calls:
  "prefix (calls h) (calls (fst (snd (seq_poll p ps acc bs h e))))"
proof (induction bs arbitrary: h p ps acc)
  case Nil
  show ?case by simp
next
  case (Cons b bs)
  obtain new_items h1 where r: "retrieve_new (data_callback b h) = (new_items, h1)"
    by (cases "retrieve_new (data_callback b h)")
  then have c: "calls h1 = calls h @ [CallRetrieveNew]"
    using calls_retrieve_new [of b h] by simp
  show ?case
  proof (cases "seq_scan p ps acc new_items")
    case (Return s)
    with r have "seq_poll p ps acc (b # bs) h e = (s, h1, signal_alarm 0 (e\<lparr>arrivals := bs\<rparr>))"
      by simp
    then show ?thesis using c by simp
  next
    case (Continue st)
    obtain p1 ps1 acc1 where st: "st = (p1, ps1, acc1)" by (cases st)
    with r Continue have "seq_poll p ps acc (b # bs) h e = seq_poll p1 ps1 acc1 bs h1 e" by simp
    moreover have "prefix (calls h1) (calls (fst (snd (seq_poll p1 ps1 acc1 bs h1 e))))"
      by (rule Cons.IH)
    ultimately show ?thesis using c by (simp add: append_prefixD)
  qed
qed

lemma count_poll_calls:
  "prefix (calls h) (calls (fst (snd (count_poll cp sp objs bs h e))))"
proof (induction bs arbitrary: h objs)
  case Nil
  show ?case by simp
next
  case (Cons b bs)
  obtain new_items h1 where r: "retrieve_new (data_callback b h) = (new_items, h1)"
    by (cases "retrieve_new (data_callback b h)")
  then have c: "calls h1 = calls h @ [CallRetrieveNew]"
    using calls_retrieve_new [of b h] by simp
  show ?case
  proof (cases "count_scan cp sp objs new_items")
    case (Return s)
    with r have "count_poll cp sp objs (b # bs) h e = (s, h1, signal_alarm 0 (e\<lparr>arrivals := bs\<rparr>))"
      by simp
    then show ?thesis using c by simp
  next
    case (Continue objs1)
    with r have "count_poll cp sp objs (b # bs) h e = count_poll cp sp objs1 bs h1 e" by simp
    moreover have "prefix (calls h1) (calls (fst (snd (count_poll cp sp objs1 bs h1 e))))"
      by (rule Cons.IH)
    ultimately show ?thesis using c by (simp add: append_prefixD)
  qed
qed

lemma find_history_item_calls:
  "prefix (calls h @ initial_calls start h) (calls (fst (snd (find_history_item p h start t e))))"
proof (cases "find p (initial_scan start h)")
  case (Some x)
  then show ?thesis by (simp add: find_history_item_unfold)
next
  case None
  show ?thesis
  proof (cases "t = 0")
    case True
    with None show ?thesis by (simp add: find_history_item_unfold)
  next
    case False
    with None have "find_history_item p h start t e =
        item_poll p (arrivals e) (h\<lparr>calls := calls h @ initial_calls start h\<rparr>)
          (signal_alarm t (signal_signal e))"
      by (simp add: find_history_item_unfold)
    then show ?thesis
      using item_poll_calls [of "h\<lparr>calls := calls h @ initial_calls start h\<rparr>" p "arrivals e"
          "signal_alarm t (signal_signal e)"]
      by simp
  qed
qed

lemma find_history_sequence_calls:
  "prefix (calls h @ initial_calls start h) (calls (fst (snd (find_history_sequence sps h start t e))))"
proof (cases sps)
  case Nil
  then show ?thesis by (simp add: find_history_sequence_unfold)
next
  case (Cons q qs)
  show ?thesis
  proof (cases "seq_scan q qs [] (initial_scan start h)")
    case (Return s)
    with Cons show ?thesis by (simp add: find_history_sequence_unfold)
  next
    case (Continue st)
    obtain p1 ps1 acc1 where st: "st = (p1, ps1, acc1)" by (cases st)
    show ?thesis
    proof (cases "t = 0")
      case True
      with Cons Continue st show ?thesis by (simp add: find_history_sequence_unfold)
    next
      case False
      with Cons Continue st have "find_history_sequence sps h start t e =
          seq_poll p1 ps1 acc1 (arrivals e) (h\<lparr>calls := calls h @ initial_calls start h\<rparr>)
            (signal_alarm t (signal_signal e))"
        by (simp add: find_history_sequence_unfold)
      then show ?thesis
        using seq_poll_calls [of "h\<lparr>calls := calls h @ initial_calls start h\<rparr>" p1 ps1 acc1
            "arrivals e" "signal_alarm t (signal_signal e)"]
        by simp
    qed
  qed
qed

lemma find_history_count_calls:
  assumes "get_count_pred c = Inr cp"
  shows "prefix (calls h @ initial_calls start h)
           (calls (fst (snd (find_history_count c h sp start t e))))"
proof -
  let ?h2 = "h\<lparr>calls := calls h @ initial_calls start h\<rparr>"
  let ?objs = "case sp of None \<Rightarrow> initial_scan start h | Some q \<Rightarrow> filter q (initial_scan start h)"
  let ?sp1 = "case sp of None \<Rightarrow> always_true | Some q \<Rightarrow> q"
  show ?thesis
  proof (cases "cp (length ?objs) \<or> t = 0")
    case True
    with assms have "fst (snd (find_history_count c h sp start t e)) = ?h2"
      by (auto simp add: find_history_count_unfold Let_def)
    then show ?thesis by simp
  next
    case False
    obtain r h3 e3 where cpoll:
      "count_poll cp ?sp1 ?objs (arrivals e) ?h2 (signal_alarm t (signal_signal e)) = (r, h3, e3)"
      by (cases "count_poll cp ?sp1 ?objs (arrivals e) ?h2 (signal_alarm t (signal_signal e))")
    with False assms have "fst (snd (find_history_count c h sp start t e)) = h3"
      by (simp add: find_history_count_unfold Let_def)
    moreover have "prefix (calls ?h2) (calls h3)"
      using count_poll_calls [of ?h2 cp ?sp1 ?objs "arrivals e" "signal_alarm t (signal_signal e)"]
        cpoll by simp
    ultimately show ?thesis by simp
  qed
qed

section \<open>The counting loop\<close>

lemma count_scan_return:
  assumes "0 < n" "n \<le> length (filter sp items)" "cp (length objs + n)"
    and "\<forall>j. 0 < j \<and> j < n \<longrightarrow> \<not> cp (length objs + j)"
  shows "count_scan cp sp objs items = Return (objs @ take n (filter sp items))"
  using assms
proof (induction items arbitrary: objs n)
  case Nil
  then show ?case by simp
next
  case (Cons x xs)
  show ?case
  proof (cases "sp x")
    case False
    with Cons.prems have "n \<le> length (filter sp xs)" by simp
    with Cons.prems have "count_scan cp sp objs xs = Return (objs @ take n (filter sp xs))"
      by (intro Cons.IH) simp_all
    with False show ?thesis by simp
  next
    case True
    show ?thesis
    proof (cases "n = 1")
      case n1: True
      with Cons.prems have "cp (length (objs @ [x]))" by simp
      with True n1 show ?thesis by simp
    next
      case n2: False
      with Cons.prems(1) have n: "1 < n" by simp
      then have "0 < (1::nat) \<and> 1 < n" by simp
      then have "\<not> cp (length objs + 1)" using Cons.prems(4) by blast
      then have nc: "\<not> cp (length (objs @ [x]))" by simp
      have a: "0 < n - 1" using n by simp
      have b: "n - 1 \<le> length (filter sp xs)" using Cons.prems(2) True by simp
      have c: "cp (length (objs @ [x]) + (n - 1))" using Cons.prems(3) n by simp
      have d: "\<forall>j. 0 < j \<and> j < n - 1 \<longrightarrow> \<not> cp (length (objs @ [x]) + j)"
      proof (intro allI impI)
        fix j assume j: "0 < j \<and> j < n - 1"
        then have "0 < Suc j \<and> Suc j < n" by arith
        then have "\<not> cp (length objs + Suc j)" using Cons.prems(4) by blast
        then show "\<not> cp (length (objs @ [x]) + j)" by simp
      qed
      have "count_scan cp sp (objs @ [x]) xs = Return ((objs @ [x]) @ take (n - 1) (filter sp xs))"
        using a b c d by (rule Cons.IH)
      moreover have "take n (x # filter sp xs) = x # take (n - 1) (filter sp xs)"
        using n by (cases n) simp_all
      ultimately show ?thesis using True nc by simp
    qed
  qed
qed

lemma count_scan_continue:
  assumes "\<forall>j. 0 < j \<and> j \<le> length (filter sp items) \<longrightarrow> \<not> cp (length objs + j)"
  shows "count_scan cp sp objs items = Continue (objs @ filter sp items)"
  using assms
proof (induction items arbitrary: objs)
  case Nil
  then show ?case by simp
next
  case (Cons x xs)
  show ?case
  proof (cases "sp x")
    case False
    with Cons.prems have "count_scan cp sp objs xs = Continue (objs @ filter sp xs)"
      by (intro Cons.IH) simp
    with False show ?thesis by simp
  next
    case True
    have "0 < (1::nat) \<and> 1 \<le> length (filter sp (x # xs))" using True by simp
    then have "\<not> cp (length objs + 1)" using Cons.prems by blast
    then have nc: "\<not> cp (length (objs @ [x]))" by simp
    have "\<forall>j. 0 < j \<and> j \<le> length (filter sp xs) \<longrightarrow> \<not> cp (length (objs @ [x]) + j)"
    proof (intro allI impI)
      fix j assume j: "0 < j \<and> j \<le> length (filter sp xs)"
      then have "0 < Suc j \<and> Suc j \<le> length (filter sp (x # xs))" using True by simp
      then have "\<not> cp (length objs + Suc j)" using Cons.prems by blast
      then show "\<not> cp (length (objs @ [x]) + j)" by simp
    qed
    then have "count_scan cp sp (objs @ [x]) xs = Continue ((objs @ [x]) @ filter sp xs)"
      by (rule Cons.IH)
    with True nc show ?thesis by simp
  qed
qed


lemma count_poll_return:
  assumes "0 < n" "n \<le> length (filter sp (concat (polled_batches h bs)))"
    and "cp (length objs + n)"
    and "\<forall>j. 0 < j \<and> j < n \<longrightarrow> \<not> cp (length objs + j)"
  shows "\<exists>h'. count_poll cp sp objs bs h e =
           (objs @ take n (filter sp (concat (polled_batches h bs))), h',
            e\<lparr>alarm := None, arrivals := drop (polls_needed sp n (polled_batches h bs)) bs\<rparr>)"
  using assms
proof (induction bs arbitrary: objs n h)
  case Nil
  then show ?case by simp
next
  case (Cons b bs)
  obtain new_items h1 where r: "retrieve_new (data_callback b h) = (new_items, h1)"
    by (cases "retrieve_new (data_callback b h)")
  then have pb: "polled_batches h (b # bs) = new_items # polled_batches h1 bs" by simp
  let ?m = "length (filter sp new_items)"
  let ?S = "filter sp (concat (polled_batches h1 bs))"
  show ?case
  proof (cases "n \<le> ?m")
    case True
    have "count_scan cp sp objs new_items = Return (objs @ take n (filter sp new_items))"
      using Cons.prems(1) True Cons.prems(3,4) by (rule count_scan_return)
    then have "count_poll cp sp objs (b # bs) h e =
        (objs @ take n (filter sp new_items), h1, signal_alarm 0 (e\<lparr>arrivals := bs\<rparr>))"
      using r by simp
    moreover have "take n (filter sp (concat (polled_batches h (b # bs)))) = take n (filter sp new_items)"
      using True by (simp add: r)
    moreover have "polls_needed sp n (polled_batches h (b # bs)) = 1"
      using True by (simp add: r)
    ultimately show ?thesis by (simp add: signal_alarm_def)
  next
    case False
    then have mn: "?m < n" by simp
    have "\<forall>j. 0 < j \<and> j \<le> ?m \<longrightarrow> \<not> cp (length objs + j)"
    proof (intro allI impI)
      fix j assume "0 < j \<and> j \<le> ?m"
      then have "0 < j \<and> j < n" using mn by arith
      then show "\<not> cp (length objs + j)" using Cons.prems(4) by blast
    qed
    then have cs: "count_scan cp sp objs new_items = Continue (objs @ filter sp new_items)"
      by (rule count_scan_continue)
    then have step: "count_poll cp sp objs (b # bs) h e =
        count_poll cp sp (objs @ filter sp new_items) bs h1 e"
      using r by simp
    have a: "0 < n - ?m" using mn by simp
    have b: "n - ?m \<le> length ?S" using Cons.prems(2) mn by (simp add: r)
    have c: "cp (length (objs @ filter sp new_items) + (n - ?m))"
      using Cons.prems(3) mn by simp
    have d: "\<forall>j. 0 < j \<and> j < n - ?m \<longrightarrow> \<not> cp (length (objs @ filter sp new_items) + j)"
    proof (intro allI impI)
      fix j assume "0 < j \<and> j < n - ?m"
      then have "0 < ?m + j \<and> ?m + j < n" by arith
      then have "\<not> cp (length objs + (?m + j))" using Cons.prems(4) by blast
      then show "\<not> cp (length (objs @ filter sp new_items) + j)" by (simp add: add.assoc)
    qed
    from Cons.IH [OF a b c d] obtain h' where ih:
      "count_poll cp sp (objs @ filter sp new_items) bs h1 e =
         ((objs @ filter sp new_items) @ take (n - ?m) ?S, h',
          e\<lparr>alarm := None, arrivals := drop (polls_needed sp (n - ?m) (polled_batches h1 bs)) bs\<rparr>)"
      by blast
    have t: "take n (filter sp (concat (polled_batches h (b # bs)))) =
               filter sp new_items @ take (n - ?m) ?S"
      using mn by (simp add: r)
    have p: "polls_needed sp n (polled_batches h (b # bs)) =
               Suc (polls_needed sp (n - ?m) (polled_batches h1 bs))"
      using False by (simp add: r)
    show ?thesis by (rule exI [of _ h']) (simp only: step ih t p append_assoc drop_Suc_Cons)
  qed
qed

lemma count_poll_timeout:
  assumes "\<forall>j. 0 < j \<and> j \<le> length (filter sp (concat (polled_batches h bs)))
             \<longrightarrow> \<not> cp (length objs + j)"
  shows "\<exists>h'. count_poll cp sp objs bs h e =
           (objs @ filter sp (concat (polled_batches h bs)), h', alarm_fires e)"
  using assms
proof (induction bs arbitrary: objs h)
  case Nil
  then show ?case by simp
next
  case (Cons b bs)
  obtain new_items h1 where r: "retrieve_new (data_callback b h) = (new_items, h1)"
    by (cases "retrieve_new (data_callback b h)")
  then have pb: "polled_batches h (b # bs) = new_items # polled_batches h1 bs" by simp
  let ?m = "length (filter sp new_items)"
  let ?S = "filter sp (concat (polled_batches h1 bs))"
  have "\<forall>j. 0 < j \<and> j \<le> ?m \<longrightarrow> \<not> cp (length objs + j)"
  proof (intro allI impI)
    fix j assume "0 < j \<and> j \<le> ?m"
    then have "0 < j \<and> j \<le> length (filter sp (concat (polled_batches h (b # bs))))"
      by (simp add: r)
    then show "\<not> cp (length objs + j)" using Cons.prems by blast
  qed
  then have cs: "count_scan cp sp objs new_items = Continue (objs @ filter sp new_items)"
    by (rule count_scan_continue)
  then have step: "count_poll cp sp objs (b # bs) h e =
      count_poll cp sp (objs @ filter sp new_items) bs h1 e"
    using r by simp
  have "\<forall>j. 0 < j \<and> j \<le> length ?S \<longrightarrow> \<not> cp (length (objs @ filter sp new_items) + j)"
  proof (intro allI impI)
    fix j assume "0 < j \<and> j \<le> length ?S"
    then have "0 < ?m + j \<and> ?m + j \<le> length (filter sp (concat (polled_batches h (b # bs))))"
      by (simp add: r)
    then have "\<not> cp (length objs + (?m + j))" using Cons.prems by blast
    then show "\<not> cp (length (objs @ filter sp new_items) + j)" by (simp add: add.assoc)
  qed
  from Cons.IH [OF this] obtain h' where
    "count_poll cp sp (objs @ filter sp new_items) bs h1 e =
       ((objs @ filter sp new_items) @ ?S, h', alarm_fires e)"
    by blast
  then show ?case by (intro exI [of _ h']) (simp add: r cs)
qed

section \<open>The sequence loop\<close>

lemma greedy_match_done: "length preds \<le> i \<Longrightarrow> greedy_match preds i acc xs = acc"
  by (cases xs) simp_all

lemma seq_scan_greedy:
  "i < length sps \<Longrightarrow>
     loop_list (seq_scan (sps ! i) (drop (Suc i) sps) acc xs) = greedy_match sps i acc xs"
proof (induction xs arbitrary: i acc)
  case Nil
  then show ?case by simp
next
  case (Cons x xs)
  show ?case
  proof (cases "(sps ! i) x")
    case False
    with Cons show ?thesis by simp
  next
    case True
    show ?thesis
    proof (cases "drop (Suc i) sps")
      case Nil
      then have "length sps \<le> Suc i" by simp
      then have "greedy_match sps (Suc i) (acc @ [x]) xs = acc @ [x]"
        by (rule greedy_match_done)
      with True Nil Cons.prems show ?thesis by simp
    next
      case (Cons q qs)
      then have lt: "Suc i < length sps" by (cases "Suc i < length sps") simp_all
      have q: "q = sps ! Suc i" using Cons lt by (metis nth_via_drop)
      have qs: "qs = drop (Suc (Suc i)) sps" using Cons by (metis drop_Suc list.sel(3) tl_drop)
      have "loop_list (seq_scan (sps ! Suc i) (drop (Suc (Suc i)) sps) (acc @ [x]) xs) =
              greedy_match sps (Suc i) (acc @ [x]) xs"
        using lt by (rule Cons.IH)
      with True Cons q qs \<open>i < length sps\<close> show ?thesis by simp
    qed
  qed
qed

lemma seq_scan_append:
  "seq_scan p ps acc (xs @ ys) =
     (case seq_scan p ps acc xs of
        Return s \<Rightarrow> Return s
      | Continue (p1, ps1, acc1) \<Rightarrow> seq_scan p1 ps1 acc1 ys)"
proof (induction xs arbitrary: p ps acc)
  case Nil
  show ?case by simp
next
  case (Cons x xs)
  show ?case
  proof (cases "p x")
    case False
    then show ?thesis by (simp add: Cons.IH)
  next
    case True
    then show ?thesis by (cases ps) (simp_all add: Cons.IH)
  qed
qed

lemma seq_scan_return_append:
  "seq_scan p ps acc xs = Return s \<Longrightarrow> seq_scan p ps acc (xs @ ys) = Return s"
  by (simp add: seq_scan_append)

lemma seq_poll_result:
  "fst (seq_poll p ps acc bs h e) = loop_list (seq_scan p ps acc (concat (polled_batches h bs)))"
proof (induction bs arbitrary: p ps acc h)
  case Nil
  show ?case by simp
next
  case (Cons b bs)
  obtain new_items h1 where r: "retrieve_new (data_callback b h) = (new_items, h1)"
    by (cases "retrieve_new (data_callback b h)")
  show ?case
  proof (cases "seq_scan p ps acc new_items")
    case (Return s)
    then have "seq_scan p ps acc (new_items @ concat (polled_batches h1 bs)) = Return s"
      by (rule seq_scan_return_append)
    with Return r show ?thesis by simp
  next
    case (Continue st)
    obtain p1 ps1 acc1 where st: "st = (p1, ps1, acc1)" by (cases st)
    have "seq_scan p ps acc (new_items @ concat (polled_batches h1 bs)) =
            seq_scan p1 ps1 acc1 (concat (polled_batches h1 bs))"
      by (simp add: seq_scan_append Continue st)
    with Continue st r Cons.IH [of p1 ps1 acc1 h1] show ?thesis by simp
  qed
qed

lemma seq_scan_length:
  "(seq_scan p ps acc xs = Return s \<longrightarrow> length s = Suc (length acc + length ps))
   \<and> (seq_scan p ps acc xs = Continue (p1, ps1, acc1)
        \<longrightarrow> length acc1 + length ps1 = length acc + length ps)"
proof (induction xs arbitrary: p ps acc)
  case Nil
  show ?case by simp
next
  case (Cons x xs)
  show ?case
  proof (cases "p x")
    case False
    with Cons.IH [of p ps acc] show ?thesis by simp
  next
    case True
    show ?thesis
    proof (cases ps)
      case Nil
      with True show ?thesis by auto
    next
      case (Cons q qs)
      with True Cons.IH [of q qs "acc @ [x]"] show ?thesis by simp
    qed
  qed
qed

lemma greedy_match_length:
  "length acc = i \<Longrightarrow> i \<le> length sps \<Longrightarrow> length (greedy_match sps i acc xs) \<le> length sps"
proof (induction xs arbitrary: i acc)
  case Nil
  then show ?case by simp
next
  case (Cons x xs)
  show ?case
  proof (cases "length sps \<le> i")
    case True
    with Cons.prems show ?thesis by simp
  next
    case False
    then have "length (greedy_match sps (Suc i) (acc @ [x]) xs) \<le> length sps"
      using Cons.prems by (intro Cons.IH) simp_all
    moreover have "length (greedy_match sps i acc xs) \<le> length sps"
      using Cons.prems by (intro Cons.IH)
    ultimately show ?thesis using False by simp
  qed
qed

lemma greedy_match_satisfies:
  "length acc = i \<Longrightarrow> (\<forall>k<i. (sps ! k) (acc ! k)) \<Longrightarrow>
     (\<forall>k<length (greedy_match sps i acc xs). (sps ! k) (greedy_match sps i acc xs ! k))"
proof (induction xs arbitrary: i acc)
  case Nil
  then show ?case by simp
next
  case (Cons x xs)
  show ?case
  proof (cases "length sps \<le> i \<or> \<not> (sps ! i) x")
    case True
    then show ?thesis using Cons.IH [OF Cons.prems] Cons.prems by auto
  next
    case False
    have "\<forall>k<Suc i. (sps ! k) ((acc @ [x]) ! k)"
    proof (intro allI impI)
      fix k assume "k < Suc i"
      then show "(sps ! k) ((acc @ [x]) ! k)"
        using Cons.prems False by (cases "k = i") (simp_all add: nth_append)
    qed
    moreover have "length (acc @ [x]) = Suc i" using Cons.prems by simp
    ultimately have "\<forall>k<length (greedy_match sps (Suc i) (acc @ [x]) xs).
        (sps ! k) (greedy_match sps (Suc i) (acc @ [x]) xs ! k)"
      by (intro Cons.IH)
    with False show ?thesis by simp
  qed
qed

lemma find_history_sequence_immediate_greedy:
  assumes "sps \<noteq> []"
  shows "fst (find_history_sequence sps h start 0 e) = greedy_match sps 0 [] (initial_scan start h)"
proof -
  obtain p ps where sps: "sps = p # ps" using assms by (cases sps) simp_all
  have "loop_list (seq_scan (sps ! 0) (drop (Suc 0) sps) [] (initial_scan start h)) =
          greedy_match sps 0 [] (initial_scan start h)"
    using assms by (intro seq_scan_greedy) simp
  then have g: "loop_list (seq_scan p ps [] (initial_scan start h)) =
          greedy_match sps 0 [] (initial_scan start h)"
    by (simp add: sps)
  show ?thesis
  proof (cases "seq_scan p ps [] (initial_scan start h)")
    case (Return s)
    with g sps show ?thesis by (simp add: find_history_sequence_unfold)
  next
    case (Continue st)
    obtain p1 ps1 acc1 where "st = (p1, ps1, acc1)" by (cases st)
    with Continue g sps show ?thesis by (simp add: find_history_sequence_unfold)
  qed
qed

lemma find_history_sequence_polled_greedy:
  assumes "sps \<noteq> []" and "t \<noteq> 0"
  shows "fst (find_history_sequence sps h start t e) =
           greedy_match sps 0 []
             (initial_scan start h @
              concat (polled_batches (h\<lparr>calls := calls h @ initial_calls start h\<rparr>) (arrivals e)))"
proof -
  let ?h2 = "h\<lparr>calls := calls h @ initial_calls start h\<rparr>"
  let ?new = "concat (polled_batches ?h2 (arrivals e))"
  obtain p ps where sps: "sps = p # ps" using assms by (cases sps) simp_all
  have "loop_list (seq_scan (sps ! 0) (drop (Suc 0) sps) [] (initial_scan start h @ ?new)) =
          greedy_match sps 0 [] (initial_scan start h @ ?new)"
    using assms by (intro seq_scan_greedy) simp
  then have g: "loop_list (seq_scan p ps [] (initial_scan start h @ ?new)) =
          greedy_match sps 0 [] (initial_scan start h @ ?new)"
    by (simp add: sps)
  show ?thesis
  proof (cases "seq_scan p ps [] (initial_scan start h)")
    case (Return s)
    then have "seq_scan p ps [] (initial_scan start h @ ?new) = Return s"
      by (rule seq_scan_return_append)
    with g have "greedy_match sps 0 [] (initial_scan start h @ ?new) = s" by simp
    with Return sps show ?thesis by (simp add: find_history_sequence_unfold)
  next
    case (Continue st)
    obtain p1 ps1 acc1 where st: "st = (p1, ps1, acc1)" by (cases st)
    have "seq_scan p ps [] (initial_scan start h @ ?new) = seq_scan p1 ps1 acc1 ?new"
      by (simp add: seq_scan_append Continue st)
    with g have "loop_list (seq_scan p1 ps1 acc1 ?new) =
        greedy_match sps 0 [] (initial_scan start h @ ?new)"
      by simp
    moreover have "fst (find_history_sequence sps h start t e) =
        fst (seq_poll p1 ps1 acc1 (arrivals e) ?h2 (signal_alarm t (signal_signal e)))"
      using Continue st sps assms(2) by (simp add: find_history_sequence_unfold)
    ultimately show ?thesis by (simp add: seq_poll_result)
  qed
qed

lemma find_history_sequence_complete_at_once:
  assumes "sps \<noteq> []"
    and "length (greedy_match sps 0 [] (initial_scan start h)) = length sps"
  shows "find_history_sequence sps h start t e =
           (greedy_match sps 0 [] (initial_scan start h),
            h\<lparr>calls := calls h @ initial_calls start h\<rparr>, e)"
proof -
  obtain p ps where sps: "sps = p # ps" using assms by (cases sps) simp_all
  have "loop_list (seq_scan (sps ! 0) (drop (Suc 0) sps) [] (initial_scan start h)) =
          greedy_match sps 0 [] (initial_scan start h)"
    using assms by (intro seq_scan_greedy) simp
  then have g: "loop_list (seq_scan p ps [] (initial_scan start h)) =
          greedy_match sps 0 [] (initial_scan start h)"
    by (simp add: sps)
  show ?thesis
  proof (cases "seq_scan p ps [] (initial_scan start h)")
    case (Return s)
    with g sps show ?thesis by (simp add: find_history_sequence_unfold)
  next
    case (Continue st)
    obtain p1 ps1 acc1 where st: "st = (p1, ps1, acc1)" by (cases st)
    have "length acc1 + length ps1 = length ([] :: 'a list) + length ps"
      using seq_scan_length [of p ps "[]" "initial_scan start h" _ p1 ps1 acc1] Continue st
      by blast
    then have "length acc1 < length sps" by (simp add: sps)
    moreover have "greedy_match sps 0 [] (initial_scan start h) = acc1"
      using g Continue st by simp
    ultimately show ?thesis using assms(2) by simp
  qed
qed

section \<open>Item search in immediate mode\<close>

text \<open>
  C3. With \<open>timeout = 0\<close>: if exactly one record at an index \<open>k\<close> at or after the
  start satisfies the predicate, \<open>find_history_item\<close> returns that record; the result
  is the first record of \<open>history.retrieve(start)\<close>, in order, that satisfies the
  predicate; and if no record at or after the start satisfies it, the result is \<open>None\<close>.
\<close>

theorem find_history_item_immediate:
  "(start_index start h \<le> k \<and> k < length (objects h) \<and> p (objects h ! k) \<and>
      (\<forall>j. start_index start h \<le> j \<and> j < length (objects h) \<and> p (objects h ! j) \<longrightarrow> j = k)
      \<longrightarrow> fst (find_history_item p h start 0 e) = Some (objects h ! k))
   \<and> fst (find_history_item p h start 0 e) = find p (fst (retrieve (fst (resolve_start start h)) h))
   \<and> ((\<forall>j. start_index start h \<le> j \<and> j < length (objects h) \<longrightarrow> \<not> p (objects h ! j))
      \<longrightarrow> fst (find_history_item p h start 0 e) = None)"
proof (intro conjI impI)
  assume a: "start_index start h \<le> k \<and> k < length (objects h) \<and> p (objects h ! k) \<and>
      (\<forall>j. start_index start h \<le> j \<and> j < length (objects h) \<and> p (objects h ! j) \<longrightarrow> j = k)"
  have "find p (drop (start_index start h) (objects h)) = Some (objects h ! k)"
  proof (rule find_drop_unique)
    show "start_index start h \<le> k" using a by blast
    show "k < length (objects h)" using a by blast
    show "p (objects h ! k)" using a by blast
    show "\<forall>j. start_index start h \<le> j \<and> j < length (objects h) \<and> p (objects h ! j) \<longrightarrow> j = k"
      using a by blast
  qed
  then show "fst (find_history_item p h start 0 e) = Some (objects h ! k)"
    by (simp only: item_immediate_eq initial_scan_drop fst_conv)
next
  show "fst (find_history_item p h start 0 e) = find p (fst (retrieve (fst (resolve_start start h)) h))"
    by (simp only: fst_initial item_immediate_eq fst_conv)
next
  assume a: "\<forall>j. start_index start h \<le> j \<and> j < length (objects h) \<longrightarrow> \<not> p (objects h ! j)"
  have "find p (drop (start_index start h) (objects h)) = None"
    by (rule find_drop_none) (rule a)
  then show "fst (find_history_item p h start 0 e) = None"
    by (simp only: item_immediate_eq initial_scan_drop fst_conv)
qed

theorem find_history_item_immediate_witness:
  "fst (find_history_item (\<lambda>x. x = (7::nat))
          \<lparr>objects = [7, 3, 7, 5], retrieved_cursor = 0, calls = []\<rparr> (Index 1) 0
          \<lparr>alarm = None, handler = False, arrivals = [[7]]\<rparr>) = Some 7
   \<and> fst (find_history_item (\<lambda>x. x = (9::nat))
          \<lparr>objects = [7, 3, 7, 5], retrieved_cursor = 0, calls = []\<rparr> (Index 1) 0
          \<lparr>alarm = None, handler = False, arrivals = [[9]]\<rparr>) = None"
proof -
  let ?h = "\<lparr>objects = [7::nat, 3, 7, 5], retrieved_cursor = 0, calls = []\<rparr>"
  let ?e = "\<lparr>alarm = None, handler = False, arrivals = [[7::nat]]\<rparr>"
  let ?e9 = "\<lparr>alarm = None, handler = False, arrivals = [[9::nat]]\<rparr>"
  have u: "\<forall>j. start_index (Index 1) ?h \<le> j \<and> j < length (objects ?h) \<and> objects ?h ! j = 7 \<longrightarrow> j = 2"
  proof (intro allI impI)
    fix j assume a: "start_index (Index 1) ?h \<le> j \<and> j < length (objects ?h) \<and> objects ?h ! j = 7"
    then have "j = 1 \<or> j = 2 \<or> j = 3" by (auto simp: start_index_def)
    with a show "j = 2" by auto
  qed
  have n: "\<forall>j. start_index (Index 1) ?h \<le> j \<and> j < length (objects ?h) \<longrightarrow> \<not> objects ?h ! j = 9"
  proof (intro allI impI)
    fix j assume a: "start_index (Index 1) ?h \<le> j \<and> j < length (objects ?h)"
    then have "j = 1 \<or> j = 2 \<or> j = 3" by (auto simp: start_index_def)
    then show "\<not> objects ?h ! j = 9" by auto
  qed
  from find_history_item_immediate [of "Index 1" ?h 2 "\<lambda>x. x = 7" ?e] u
  have "fst (find_history_item (\<lambda>x. x = 7) ?h (Index 1) 0 ?e) = Some (objects ?h ! 2)"
    by (simp add: start_index_def)
  then have "fst (find_history_item (\<lambda>x. x = 7) ?h (Index 1) 0 ?e) = Some 7"
    by simp
  moreover from find_history_item_immediate [of "Index 1" ?h 2 "\<lambda>x. x = 9" ?e9] n
  have "fst (find_history_item (\<lambda>x. x = 9) ?h (Index 1) 0 ?e9) = None"
    by blast
  ultimately show ?thesis by simp
qed

section \<open>Immediate mode\<close>

text \<open>
  C5. With \<open>timeout = 0\<close> each of the three searches returns the result of its initial
  scan: the process state (alarm, handler, pending arrivals) is returned as it was, and the
  only history methods invoked are those of the cursor resolution and the initial retrieval,
  among which \<open>retrieve_new\<close> does not occur.
\<close>

theorem immediate_mode_no_polling:
  "find_history_item p h start 0 e =
     (find p (initial_scan start h), h\<lparr>calls := calls h @ initial_calls start h\<rparr>, e)
   \<and> find_history_sequence sps h start 0 e =
     ((case sps of [] \<Rightarrow> [] | q # qs \<Rightarrow> loop_list (seq_scan q qs [] (initial_scan start h))),
      h\<lparr>calls := calls h @ initial_calls start h\<rparr>, e)
   \<and> find_history_count (CountPred cp) h sp start 0 e =
     (Inr (case sp of None \<Rightarrow> initial_scan start h | Some q \<Rightarrow> filter q (initial_scan start h)),
      h\<lparr>calls := calls h @ initial_calls start h\<rparr>, e)
   \<and> find_history_count (CountInt n) h sp start 0 e =
     (Inr (case sp of None \<Rightarrow> initial_scan start h | Some q \<Rightarrow> filter q (initial_scan start h)),
      h\<lparr>calls := calls h @ initial_calls start h\<rparr>, e)
   \<and> CallRetrieveNew \<notin> set (initial_calls start h)"
proof (intro conjI)
  show "find_history_item p h start 0 e =
     (find p (initial_scan start h), h\<lparr>calls := calls h @ initial_calls start h\<rparr>, e)"
    by (rule item_immediate_eq)
  show "find_history_sequence sps h start 0 e =
     ((case sps of [] \<Rightarrow> [] | q # qs \<Rightarrow> loop_list (seq_scan q qs [] (initial_scan start h))),
      h\<lparr>calls := calls h @ initial_calls start h\<rparr>, e)"
  proof (cases sps)
    case Nil
    then show ?thesis by (simp add: find_history_sequence_unfold)
  next
    case (Cons q qs)
    show ?thesis
    proof (cases "seq_scan q qs [] (initial_scan start h)")
      case (Return s)
      with Cons show ?thesis by (simp add: find_history_sequence_unfold)
    next
      case (Continue st)
      obtain p1 ps1 acc1 where "st = (p1, ps1, acc1)" by (cases st)
      with Cons Continue show ?thesis by (simp add: find_history_sequence_unfold)
    qed
  qed
  show "find_history_count (CountPred cp) h sp start 0 e =
     (Inr (case sp of None \<Rightarrow> initial_scan start h | Some q \<Rightarrow> filter q (initial_scan start h)),
      h\<lparr>calls := calls h @ initial_calls start h\<rparr>, e)"
    by (simp add: find_history_count_unfold get_count_pred_def Let_def)
  show "find_history_count (CountInt n) h sp start 0 e =
     (Inr (case sp of None \<Rightarrow> initial_scan start h | Some q \<Rightarrow> filter q (initial_scan start h)),
      h\<lparr>calls := calls h @ initial_calls start h\<rparr>, e)"
    by (simp add: find_history_count_unfold get_count_pred_def Let_def)
  show "CallRetrieveNew \<notin> set (initial_calls start h)"
    by (cases start) (simp_all add: initial_calls_def)
qed

section \<open>The empty sequence\<close>

text \<open>
  C6. With an empty list of predicates \<open>find_history_sequence\<close> returns the empty
  list, which is as long as the list of predicates, whatever the history holds and whatever
  the start cursor and the timeout are: no record is tested and nothing is polled. The
  snapshot of line 826 is still taken, and nothing else is done with it.
\<close>

theorem find_history_sequence_empty:
  "find_history_sequence [] h start t e = ([], h\<lparr>calls := calls h @ initial_calls start h\<rparr>, e)
   \<and> length (fst (find_history_sequence [] h start t e)) = length ([] :: ('r \<Rightarrow> bool) list)
   \<and> CallRetrieveNew \<notin> set (initial_calls start (h :: 'r history))"
proof (intro conjI)
  show 1: "find_history_sequence [] h start t e = ([], h\<lparr>calls := calls h @ initial_calls start h\<rparr>, e)"
    by (simp add: find_history_sequence_unfold)
  show "length (fst (find_history_sequence [] h start t e)) = length ([] :: ('r \<Rightarrow> bool) list)"
    by (simp add: 1)
  show "CallRetrieveNew \<notin> set (initial_calls start h)"
    by (cases start) (simp_all add: initial_calls_def)
qed

section \<open>The count argument\<close>

text \<open>
  C7. A \<open>count\<close> that is neither a predicate nor an integer makes
  \<open>find_history_count\<close> raise TypeError before any method of the history is invoked:
  the history and the process state are returned untouched. A predicate or an integer never
  gives that error.
\<close>

theorem find_history_count_rejects_malformed_count:
  "find_history_count CountOther h sp start t e = (Inl TypeError, h, e)
   \<and> fst (find_history_count (CountPred cp) h sp start t e) \<noteq> Inl TypeError
   \<and> fst (find_history_count (CountInt n) h sp start t e) \<noteq> Inl TypeError"
proof (intro conjI)
  show "find_history_count CountOther h sp start t e = (Inl TypeError, h, e)"
    by (simp add: find_history_count_def get_count_pred_def)
  have ok: "fst (find_history_count c h sp start t e) \<noteq> Inl TypeError"
    if "get_count_pred c = Inr q" for c q
    using that
    by (simp add: find_history_count_unfold Let_def split: prod.splits)
  show "fst (find_history_count (CountPred cp) h sp start t e) \<noteq> Inl TypeError"
    by (rule ok [of _ cp]) (simp add: get_count_pred_def)
  show "fst (find_history_count (CountInt n) h sp start t e) \<noteq> Inl TypeError"
    by (rule ok [of _ "\<lambda>len. equal_to n (int len)"]) (simp add: get_count_pred_def)
qed

section \<open>Resolution of the start cursor\<close>

lemma now_as_index:
  "initial_scan NOW h = initial_scan (Index (length (objects h))) (snd (size_h h))"
  "h\<lparr>calls := calls h @ initial_calls NOW h\<rparr> =
     (snd (size_h h))\<lparr>calls := calls (snd (size_h h)) @
        initial_calls (Index (length (objects h))) (snd (size_h h))\<rparr>"
  by (simp_all add: initial_scan_def initial_calls_def size_h_def)

lemma find_history_item_now:
  "find_history_item p h NOW t e =
     find_history_item p (snd (size_h h)) (Index (length (objects h))) t e"
  by (simp only: find_history_item_unfold [of p h NOW] now_as_index
        find_history_item_unfold [of p "snd (size_h h)" "Index (length (objects h))"])

lemma find_history_sequence_now:
  "find_history_sequence sps h NOW t e =
     find_history_sequence sps (snd (size_h h)) (Index (length (objects h))) t e"
  by (simp only: find_history_sequence_unfold [of sps h NOW] now_as_index
        find_history_sequence_unfold [of sps "snd (size_h h)" "Index (length (objects h))"])

lemma find_history_count_now:
  assumes "get_count_pred c = Inr cp"
  shows "find_history_count c h sp NOW t e =
     find_history_count c (snd (size_h h)) sp (Index (length (objects h))) t e"
  using assms
  by (simp only: find_history_count_unfold [of c h sp NOW] now_as_index
        find_history_count_unfold [of c "snd (size_h h)" sp "Index (length (objects h))"]
        sum.case)

lemma initial_scan_cases:
  "initial_scan NOW h = drop (fst (size_h h)) (objects h)"
  "initial_scan (Index i) h = drop i (objects h)"
  "initial_scan FromStart h = objects h"
  by (simp_all add: initial_scan_def size_h_def)

lemma initial_calls_cases:
  "initial_calls NOW h = [CallSize, CallRetrieve (Some (fst (size_h h)))]"
  "initial_calls (Index i) h = [CallRetrieve (Some i)]"
  "initial_calls FromStart h = [CallRetrieve None]"
  by (simp_all add: initial_calls_def size_h_def)

lemma sequence_immediate_greedy:
  "fst (find_history_sequence sps h start 0 e) = greedy_match sps 0 [] (initial_scan start h)"
proof (cases sps)
  case Nil
  have "greedy_match [] 0 [] (initial_scan start h) = []"
    by (rule greedy_match_done) simp
  with Nil show ?thesis by (simp add: find_history_sequence_unfold)
next
  case (Cons q qs)
  then have "sps \<noteq> []" by simp
  then show ?thesis by (rule find_history_sequence_immediate_greedy)
qed

lemma count_immediate_eq:
  assumes "get_count_pred c = Inr cp"
  shows "fst (find_history_count c h sp start 0 e) =
           Inr (case sp of None \<Rightarrow> initial_scan start h
                | Some q \<Rightarrow> filter q (initial_scan start h))"
  using assms by (simp add: find_history_count_unfold Let_def)

lemma count_pred_cases:
  "get_count_pred (CountPred cp) = Inr cp"
  "get_count_pred (CountInt n) = Inr (\<lambda>len. equal_to n (int len))"
  by (simp_all add: get_count_pred_def)



text \<open>
  C9. The cursor \<open>"NOW"\<close> is resolved to \<open>history.size()\<close>, the number \<open>S\<close> of
  records held when the search is called: each of the three searches behaves on \<open>"NOW"\<close>
  as on the literal index \<open>S\<close> after one call of \<open>size\<close>, and the call of \<open>size\<close>
  precedes the retrieval, which is asked for the records from \<open>S\<close> on. For every cursor
  and every timeout, each of the three searches is determined by the records of its initial
  scan, and these are the records at indices \<open>\<ge> S\<close> for \<open>"NOW"\<close>, the records from
  index \<open>i\<close> on for the literal index \<open>i\<close>, and all records for the start-of-history
  cursor; so with \<open>timeout = 0\<close> the item search returns the first match among them, the
  sequence search the greedy match over them, and the count search the matching ones of
  them. A literal index and the start-of-history cursor are handed to \<open>retrieve\<close> as
  given by each of the three searches, with no call of \<open>size\<close>.
\<close>

theorem now_resolves_to_size:
  "resolve_start NOW h = (Some (fst (size_h h)), snd (size_h h))
   \<and> fst (size_h h) = length (objects h)
   \<and> find_history_item p h NOW t e =
       find_history_item p (snd (size_h h)) (Index (fst (size_h h))) t e
   \<and> find_history_sequence sps h NOW t e =
       find_history_sequence sps (snd (size_h h)) (Index (fst (size_h h))) t e
   \<and> find_history_count (CountPred cp) h sp NOW t e =
       find_history_count (CountPred cp) (snd (size_h h)) sp (Index (fst (size_h h))) t e
   \<and> find_history_count (CountInt n) h sp NOW t e =
       find_history_count (CountInt n) (snd (size_h h)) sp (Index (fst (size_h h))) t e
   \<and> prefix (calls h @ [CallSize, CallRetrieve (Some (fst (size_h h)))])
        (calls (fst (snd (find_history_item p h NOW t e))))
   \<and> prefix (calls h @ [CallSize, CallRetrieve (Some (fst (size_h h)))])
        (calls (fst (snd (find_history_sequence sps h NOW t e))))
   \<and> prefix (calls h @ [CallSize, CallRetrieve (Some (fst (size_h h)))])
        (calls (fst (snd (find_history_count (CountPred cp) h sp NOW t e))))
   \<and> fst (find_history_item p h NOW 0 e) = find p (drop (fst (size_h h)) (objects h))
   \<and> prefix (calls h @ [CallRetrieve (Some i)])
        (calls (fst (snd (find_history_item p h (Index i) t e))))
   \<and> prefix (calls h @ [CallRetrieve None])
        (calls (fst (snd (find_history_item p h FromStart t e))))
   \<and> fst (find_history_item p h (Index i) 0 e) = find p (drop i (objects h))
   \<and> fst (find_history_item p h FromStart 0 e) = find p (objects h)
   \<and> initial_scan NOW h = drop (fst (size_h h)) (objects h)
   \<and> initial_scan (Index i) h = drop i (objects h)
   \<and> initial_scan FromStart h = objects h
   \<and> initial_calls NOW h = [CallSize, CallRetrieve (Some (fst (size_h h)))]
   \<and> initial_calls (Index i) h = [CallRetrieve (Some i)]
   \<and> initial_calls FromStart h = [CallRetrieve None]
   \<and> find_history_item p h st t e =
       (case find p (initial_scan st h) of
          Some item \<Rightarrow> (Some item, h\<lparr>calls := calls h @ initial_calls st h\<rparr>, e)
        | None \<Rightarrow>
            if t \<noteq> 0
            then item_poll p (arrivals e) (h\<lparr>calls := calls h @ initial_calls st h\<rparr>) (signal_alarm t (signal_signal e))
            else (None, h\<lparr>calls := calls h @ initial_calls st h\<rparr>, e))
   \<and> find_history_sequence sps h st t e =
       (case sps of
          [] \<Rightarrow> ([], h\<lparr>calls := calls h @ initial_calls st h\<rparr>, e)
        | q # qs \<Rightarrow>
            (case seq_scan q qs [] (initial_scan st h) of
               Return s \<Rightarrow> (s, h\<lparr>calls := calls h @ initial_calls st h\<rparr>, e)
             | Continue (p1, ps1, s1) \<Rightarrow>
                 if t \<noteq> 0
                 then seq_poll p1 ps1 s1 (arrivals e) (h\<lparr>calls := calls h @ initial_calls st h\<rparr>)
                        (signal_alarm t (signal_signal e))
                 else (s1, h\<lparr>calls := calls h @ initial_calls st h\<rparr>, e)))
   \<and> find_history_count c h sp st t e =
       (case get_count_pred c of
          Inl err \<Rightarrow> (Inl err, h, e)
        | Inr cp1 \<Rightarrow>
            (let sp1 = (case sp of None \<Rightarrow> always_true | Some q \<Rightarrow> q);
                 objs = (case sp of None \<Rightarrow> initial_scan st h
                         | Some q \<Rightarrow> filter q (initial_scan st h));
                 h2 = h\<lparr>calls := calls h @ initial_calls st h\<rparr>
             in if cp1 (length objs) then (Inr objs, h2, e)
                else if t \<noteq> 0
                then (case count_poll cp1 sp1 objs (arrivals e) h2
                             (signal_alarm t (signal_signal e)) of
                        (r, h3, e3) \<Rightarrow> (Inr r, h3, e3))
                else (Inr objs, h2, e)))
   \<and> fst (find_history_sequence sps h NOW 0 e) =
       greedy_match sps 0 [] (drop (fst (size_h h)) (objects h))
   \<and> fst (find_history_sequence sps h (Index i) 0 e) =
       greedy_match sps 0 [] (drop i (objects h))
   \<and> fst (find_history_sequence sps h FromStart 0 e) =
       greedy_match sps 0 [] (objects h)
   \<and> fst (find_history_count (CountPred cp) h sp NOW 0 e) =
       Inr (case sp of None \<Rightarrow> drop (fst (size_h h)) (objects h) | Some q \<Rightarrow> filter q (drop (fst (size_h h)) (objects h)))
   \<and> fst (find_history_count (CountInt n) h sp NOW 0 e) =
       Inr (case sp of None \<Rightarrow> drop (fst (size_h h)) (objects h) | Some q \<Rightarrow> filter q (drop (fst (size_h h)) (objects h)))
   \<and> fst (find_history_count (CountPred cp) h sp (Index i) 0 e) =
       Inr (case sp of None \<Rightarrow> drop i (objects h) | Some q \<Rightarrow> filter q (drop i (objects h)))
   \<and> fst (find_history_count (CountInt n) h sp (Index i) 0 e) =
       Inr (case sp of None \<Rightarrow> drop i (objects h) | Some q \<Rightarrow> filter q (drop i (objects h)))
   \<and> fst (find_history_count (CountPred cp) h sp FromStart 0 e) =
       Inr (case sp of None \<Rightarrow> objects h | Some q \<Rightarrow> filter q (objects h))
   \<and> fst (find_history_count (CountInt n) h sp FromStart 0 e) =
       Inr (case sp of None \<Rightarrow> objects h | Some q \<Rightarrow> filter q (objects h))
   \<and> prefix (calls h @ [CallSize, CallRetrieve (Some (fst (size_h h)))])
        (calls (fst (snd (find_history_count (CountInt n) h sp NOW t e))))
   \<and> prefix (calls h @ [CallRetrieve (Some i)])
        (calls (fst (snd (find_history_sequence sps h (Index i) t e))))
   \<and> prefix (calls h @ [CallRetrieve None])
        (calls (fst (snd (find_history_sequence sps h FromStart t e))))
   \<and> prefix (calls h @ [CallRetrieve (Some i)])
        (calls (fst (snd (find_history_count (CountPred cp) h sp (Index i) t e))))
   \<and> prefix (calls h @ [CallRetrieve None])
        (calls (fst (snd (find_history_count (CountPred cp) h sp FromStart t e))))
   \<and> prefix (calls h @ [CallRetrieve (Some i)])
        (calls (fst (snd (find_history_count (CountInt n) h sp (Index i) t e))))
   \<and> prefix (calls h @ [CallRetrieve None])
        (calls (fst (snd (find_history_count (CountInt n) h sp FromStart t e))))"
proof -
  have s: "fst (size_h h) = length (objects h)" by (simp add: size_h_def)
  have c0: "resolve_start NOW h = (Some (fst (size_h h)), snd (size_h h))"
    by (simp add: resolve_start_def split: prod.splits)
  have c1: "fst (size_h h) = length (objects h)"
    by (rule s)
  have c2: "find_history_item p h NOW t e =
       find_history_item p (snd (size_h h)) (Index (fst (size_h h))) t e"
    by (simp only: s find_history_item_now)
  have c3: "find_history_sequence sps h NOW t e =
       find_history_sequence sps (snd (size_h h)) (Index (fst (size_h h))) t e"
    by (simp only: s find_history_sequence_now)
  have c4: "find_history_count (CountPred cp) h sp NOW t e =
       find_history_count (CountPred cp) (snd (size_h h)) sp (Index (fst (size_h h))) t e"
    unfolding s by (rule find_history_count_now [of _ cp]) (simp add: get_count_pred_def)
  have c5: "find_history_count (CountInt n) h sp NOW t e =
       find_history_count (CountInt n) (snd (size_h h)) sp (Index (fst (size_h h))) t e"
    unfolding s
    by (rule find_history_count_now [of _ "\<lambda>len. equal_to n (int len)"])
       (simp add: get_count_pred_def)
  have c6: "prefix (calls h @ [CallSize, CallRetrieve (Some (fst (size_h h)))])
        (calls (fst (snd (find_history_item p h NOW t e))))"
    using find_history_item_calls [of h NOW p t e] by (simp only: initial_calls_cases)
  have c7: "prefix (calls h @ [CallSize, CallRetrieve (Some (fst (size_h h)))])
        (calls (fst (snd (find_history_sequence sps h NOW t e))))"
    using find_history_sequence_calls [of h NOW sps t e] by (simp only: initial_calls_cases)
  have c8: "prefix (calls h @ [CallSize, CallRetrieve (Some (fst (size_h h)))])
        (calls (fst (snd (find_history_count (CountPred cp) h sp NOW t e))))"
    using find_history_count_calls [OF count_pred_cases(1), where h = h and start = NOW and sp = sp and t = t and e = e]
    by (simp only: initial_calls_cases)
  have c9: "fst (find_history_item p h NOW 0 e) = find p (drop (fst (size_h h)) (objects h))"
    by (simp only: item_immediate_eq initial_scan_cases fst_conv)
  have c10: "prefix (calls h @ [CallRetrieve (Some i)])
        (calls (fst (snd (find_history_item p h (Index i) t e))))"
    using find_history_item_calls [of h "Index i" p t e] by (simp only: initial_calls_cases)
  have c11: "prefix (calls h @ [CallRetrieve None])
        (calls (fst (snd (find_history_item p h FromStart t e))))"
    using find_history_item_calls [of h FromStart p t e] by (simp only: initial_calls_cases)
  have c12: "fst (find_history_item p h (Index i) 0 e) = find p (drop i (objects h))"
    by (simp only: item_immediate_eq initial_scan_cases fst_conv)
  have c13: "fst (find_history_item p h FromStart 0 e) = find p (objects h)"
    by (simp only: item_immediate_eq initial_scan_cases fst_conv)
  have c14: "initial_scan NOW h = drop (fst (size_h h)) (objects h)"
    by (rule initial_scan_cases)
  have c15: "initial_scan (Index i) h = drop i (objects h)"
    by (rule initial_scan_cases)
  have c16: "initial_scan FromStart h = objects h"
    by (rule initial_scan_cases)
  have c17: "initial_calls NOW h = [CallSize, CallRetrieve (Some (fst (size_h h)))]"
    by (rule initial_calls_cases)
  have c18: "initial_calls (Index i) h = [CallRetrieve (Some i)]"
    by (rule initial_calls_cases)
  have c19: "initial_calls FromStart h = [CallRetrieve None]"
    by (rule initial_calls_cases)
  have c20: "find_history_item p h st t e =
       (case find p (initial_scan st h) of
          Some item \<Rightarrow> (Some item, h\<lparr>calls := calls h @ initial_calls st h\<rparr>, e)
        | None \<Rightarrow>
            if t \<noteq> 0
            then item_poll p (arrivals e) (h\<lparr>calls := calls h @ initial_calls st h\<rparr>) (signal_alarm t (signal_signal e))
            else (None, h\<lparr>calls := calls h @ initial_calls st h\<rparr>, e))"
    by (rule find_history_item_unfold)
  have c21: "find_history_sequence sps h st t e =
       (case sps of
          [] \<Rightarrow> ([], h\<lparr>calls := calls h @ initial_calls st h\<rparr>, e)
        | q # qs \<Rightarrow>
            (case seq_scan q qs [] (initial_scan st h) of
               Return s \<Rightarrow> (s, h\<lparr>calls := calls h @ initial_calls st h\<rparr>, e)
             | Continue (p1, ps1, s1) \<Rightarrow>
                 if t \<noteq> 0
                 then seq_poll p1 ps1 s1 (arrivals e) (h\<lparr>calls := calls h @ initial_calls st h\<rparr>)
                        (signal_alarm t (signal_signal e))
                 else (s1, h\<lparr>calls := calls h @ initial_calls st h\<rparr>, e)))"
    by (rule find_history_sequence_unfold)
  have c22: "find_history_count c h sp st t e =
       (case get_count_pred c of
          Inl err \<Rightarrow> (Inl err, h, e)
        | Inr cp1 \<Rightarrow>
            (let sp1 = (case sp of None \<Rightarrow> always_true | Some q \<Rightarrow> q);
                 objs = (case sp of None \<Rightarrow> initial_scan st h
                         | Some q \<Rightarrow> filter q (initial_scan st h));
                 h2 = h\<lparr>calls := calls h @ initial_calls st h\<rparr>
             in if cp1 (length objs) then (Inr objs, h2, e)
                else if t \<noteq> 0
                then (case count_poll cp1 sp1 objs (arrivals e) h2
                             (signal_alarm t (signal_signal e)) of
                        (r, h3, e3) \<Rightarrow> (Inr r, h3, e3))
                else (Inr objs, h2, e)))"
    by (rule find_history_count_unfold)
  have c23: "fst (find_history_sequence sps h NOW 0 e) =
       greedy_match sps 0 [] (drop (fst (size_h h)) (objects h))"
    by (simp only: sequence_immediate_greedy initial_scan_cases)
  have c24: "fst (find_history_sequence sps h (Index i) 0 e) =
       greedy_match sps 0 [] (drop i (objects h))"
    by (simp only: sequence_immediate_greedy initial_scan_cases)
  have c25: "fst (find_history_sequence sps h FromStart 0 e) =
       greedy_match sps 0 [] (objects h)"
    by (simp only: sequence_immediate_greedy initial_scan_cases)
  have c26: "fst (find_history_count (CountPred cp) h sp NOW 0 e) =
       Inr (case sp of None \<Rightarrow> drop (fst (size_h h)) (objects h) | Some q \<Rightarrow> filter q (drop (fst (size_h h)) (objects h)))"
    by (simp only: count_immediate_eq [OF count_pred_cases(1)] initial_scan_cases)
  have c27: "fst (find_history_count (CountInt n) h sp NOW 0 e) =
       Inr (case sp of None \<Rightarrow> drop (fst (size_h h)) (objects h) | Some q \<Rightarrow> filter q (drop (fst (size_h h)) (objects h)))"
    by (simp only: count_immediate_eq [OF count_pred_cases(2)] initial_scan_cases)
  have c28: "fst (find_history_count (CountPred cp) h sp (Index i) 0 e) =
       Inr (case sp of None \<Rightarrow> drop i (objects h) | Some q \<Rightarrow> filter q (drop i (objects h)))"
    by (simp only: count_immediate_eq [OF count_pred_cases(1)] initial_scan_cases)
  have c29: "fst (find_history_count (CountInt n) h sp (Index i) 0 e) =
       Inr (case sp of None \<Rightarrow> drop i (objects h) | Some q \<Rightarrow> filter q (drop i (objects h)))"
    by (simp only: count_immediate_eq [OF count_pred_cases(2)] initial_scan_cases)
  have c30: "fst (find_history_count (CountPred cp) h sp FromStart 0 e) =
       Inr (case sp of None \<Rightarrow> objects h | Some q \<Rightarrow> filter q (objects h))"
    by (simp only: count_immediate_eq [OF count_pred_cases(1)] initial_scan_cases)
  have c31: "fst (find_history_count (CountInt n) h sp FromStart 0 e) =
       Inr (case sp of None \<Rightarrow> objects h | Some q \<Rightarrow> filter q (objects h))"
    by (simp only: count_immediate_eq [OF count_pred_cases(2)] initial_scan_cases)
  have c32: "prefix (calls h @ [CallSize, CallRetrieve (Some (fst (size_h h)))])
        (calls (fst (snd (find_history_count (CountInt n) h sp NOW t e))))"
    using find_history_count_calls [OF count_pred_cases(2), where h = h and start = NOW and sp = sp and t = t and e = e]
    by (simp only: initial_calls_cases)
  have c33: "prefix (calls h @ [CallRetrieve (Some i)])
        (calls (fst (snd (find_history_sequence sps h (Index i) t e))))"
    using find_history_sequence_calls [of h "Index i" sps t e] by (simp only: initial_calls_cases)
  have c34: "prefix (calls h @ [CallRetrieve None])
        (calls (fst (snd (find_history_sequence sps h FromStart t e))))"
    using find_history_sequence_calls [of h FromStart sps t e] by (simp only: initial_calls_cases)
  have c35: "prefix (calls h @ [CallRetrieve (Some i)])
        (calls (fst (snd (find_history_count (CountPred cp) h sp (Index i) t e))))"
    using find_history_count_calls [OF count_pred_cases(1), where h = h and start = "Index i" and sp = sp and t = t and e = e]
    by (simp only: initial_calls_cases)
  have c36: "prefix (calls h @ [CallRetrieve None])
        (calls (fst (snd (find_history_count (CountPred cp) h sp FromStart t e))))"
    using find_history_count_calls [OF count_pred_cases(1), where h = h and start = FromStart and sp = sp and t = t and e = e]
    by (simp only: initial_calls_cases)
  have c37: "prefix (calls h @ [CallRetrieve (Some i)])
        (calls (fst (snd (find_history_count (CountInt n) h sp (Index i) t e))))"
    using find_history_count_calls [OF count_pred_cases(2), where h = h and start = "Index i" and sp = sp and t = t and e = e]
    by (simp only: initial_calls_cases)
  have c38: "prefix (calls h @ [CallRetrieve None])
        (calls (fst (snd (find_history_count (CountInt n) h sp FromStart t e))))"
    using find_history_count_calls [OF count_pred_cases(2), where h = h and start = FromStart and sp = sp and t = t and e = e]
    by (simp only: initial_calls_cases)
  from c0 c1 c2 c3 c4 c5 c6 c7 c8 c9 c10 c11 c12 c13 c14 c15 c16 c17 c18 c19 c20 c21 c22 c23 c24 c25 c26 c27 c28 c29 c30 c31 c32 c33 c34 c35 c36 c37 c38
  show ?thesis by (intro conjI)
qed


theorem now_resolves_to_size_witness:
  "fst (find_history_item (\<lambda>x. x = (7::nat))
          \<lparr>objects = [7], retrieved_cursor = 1, calls = []\<rparr> NOW 0
          \<lparr>alarm = None, handler = False, arrivals = []\<rparr>) = None
   \<and> fst (find_history_item (\<lambda>x. x = (7::nat))
          \<lparr>objects = [7], retrieved_cursor = 1, calls = []\<rparr> FromStart 0
          \<lparr>alarm = None, handler = False, arrivals = []\<rparr>) = Some 7
   \<and> fst (find_history_sequence [\<lambda>x. x = (7::nat)]
          \<lparr>objects = [7], retrieved_cursor = 1, calls = []\<rparr> NOW 0
          \<lparr>alarm = None, handler = False, arrivals = []\<rparr>) = []
   \<and> fst (find_history_sequence [\<lambda>x. x = (7::nat)]
          \<lparr>objects = [7], retrieved_cursor = 1, calls = []\<rparr> FromStart 0
          \<lparr>alarm = None, handler = False, arrivals = []\<rparr>) = [7]
   \<and> fst (find_history_count (CountInt 1)
          \<lparr>objects = [7::nat], retrieved_cursor = 1, calls = []\<rparr> None NOW 0
          \<lparr>alarm = None, handler = False, arrivals = []\<rparr>) = Inr []
   \<and> fst (find_history_count (CountInt 1)
          \<lparr>objects = [7::nat], retrieved_cursor = 1, calls = []\<rparr> None (Index 0) 0
          \<lparr>alarm = None, handler = False, arrivals = []\<rparr>) = Inr [7]"
proof -
  let ?h = "\<lparr>objects = [7::nat], retrieved_cursor = 1, calls = []\<rparr>"
  let ?e = "\<lparr>alarm = None, handler = False, arrivals = [] :: nat list list\<rparr>"
  let ?p = "\<lambda>x::nat. x = 7"
  note t = now_resolves_to_size [of ?h ?p 0 ?e "[?p]" "\<lambda>len. True" None 1 0 NOW "CountInt 1"]
  from t have "fst (find_history_item ?p ?h NOW 0 ?e) = find ?p (drop (fst (size_h ?h)) (objects ?h))"
    by blast
  then have a: "fst (find_history_item ?p ?h NOW 0 ?e) = None" by (simp add: size_h_def)
  from t have "fst (find_history_item ?p ?h FromStart 0 ?e) = find ?p (objects ?h)"
    by blast
  then have b: "fst (find_history_item ?p ?h FromStart 0 ?e) = Some 7" by simp
  from t have "fst (find_history_sequence [?p] ?h NOW 0 ?e) =
      greedy_match [?p] 0 [] (drop (fst (size_h ?h)) (objects ?h))"
    by blast
  then have c: "fst (find_history_sequence [?p] ?h NOW 0 ?e) = []" by (simp add: size_h_def)
  from t have "fst (find_history_sequence [?p] ?h FromStart 0 ?e) =
      greedy_match [?p] 0 [] (objects ?h)"
    by blast
  then have d: "fst (find_history_sequence [?p] ?h FromStart 0 ?e) = [7]" by simp
  from t have "fst (find_history_count (CountInt 1) ?h None NOW 0 ?e) =
      Inr (case None of None \<Rightarrow> drop (fst (size_h ?h)) (objects ?h)
           | Some q \<Rightarrow> filter q (drop (fst (size_h ?h)) (objects ?h)))"
    by blast
  then have f: "fst (find_history_count (CountInt 1) ?h None NOW 0 ?e) = Inr []"
    by (simp add: size_h_def)
  from t have "fst (find_history_count (CountInt 1) ?h None (Index 0) 0 ?e) =
      Inr (case None of None \<Rightarrow> drop 0 (objects ?h)
           | Some q \<Rightarrow> filter q (drop 0 (objects ?h)))"
    by blast
  then have g: "fst (find_history_count (CountInt 1) ?h None (Index 0) 0 ?e) = Inr [7]"
    by simp
  from a b c d f g show ?thesis by (intro conjI)
qed

section \<open>The alarm on the exit paths\<close>

lemma seq_poll_alarm: "alarm (snd (snd (seq_poll p ps acc bs h e))) = None"
proof (induction bs arbitrary: h p ps acc)
  case Nil
  show ?case by (simp add: alarm_fires_def)
next
  case (Cons b bs)
  obtain new_items h1 where r: "retrieve_new (data_callback b h) = (new_items, h1)"
    by (cases "retrieve_new (data_callback b h)")
  show ?case
  proof (cases "seq_scan p ps acc new_items")
    case (Return s)
    with r show ?thesis by (simp add: signal_alarm_def)
  next
    case (Continue st)
    obtain p1 ps1 acc1 where "st = (p1, ps1, acc1)" by (cases st)
    with r Continue have "seq_poll p ps acc (b # bs) h e = seq_poll p1 ps1 acc1 bs h1 e" by simp
    then show ?thesis by (simp only: Cons.IH)
  qed
qed

lemma count_poll_alarm: "alarm (snd (snd (count_poll cp sp objs bs h e))) = None"
proof (induction bs arbitrary: h objs)
  case Nil
  show ?case by (simp add: alarm_fires_def)
next
  case (Cons b bs)
  obtain new_items h1 where r: "retrieve_new (data_callback b h) = (new_items, h1)"
    by (cases "retrieve_new (data_callback b h)")
  show ?case
  proof (cases "count_scan cp sp objs new_items")
    case (Return s)
    with r show ?thesis by (simp add: signal_alarm_def)
  next
    case (Continue objs1)
    with r have "count_poll cp sp objs (b # bs) h e = count_poll cp sp objs1 bs h1 e" by simp
    then show ?thesis by (simp only: Cons.IH)
  qed
qed

lemma item_poll_alarm:
  "alarm (snd (snd (item_poll p bs h e))) =
     (case fst (item_poll p bs h e) of None \<Rightarrow> None | Some item \<Rightarrow> alarm e)"
proof (induction bs arbitrary: h)
  case Nil
  show ?case by (simp add: alarm_fires_def)
next
  case (Cons b bs)
  obtain new_items h1 where r: "retrieve_new (data_callback b h) = (new_items, h1)"
    by (cases "retrieve_new (data_callback b h)")
  show ?case
  proof (cases "find p new_items")
    case None
    with r have "item_poll p (b # bs) h e = item_poll p bs h1 e" by simp
    then show ?thesis by (simp only: Cons.IH)
  next
    case (Some x)
    with r show ?thesis by simp
  qed
qed

lemma find_history_item_polled_match_keeps_alarm:
  assumes "t \<noteq> 0" and "find p (initial_scan start h) = None"
    and "fst (find_history_item p h start t e) = Some item"
  shows "alarm (snd (snd (find_history_item p h start t e))) = Some t"
proof -
  let ?h2 = "h\<lparr>calls := calls h @ initial_calls start h\<rparr>"
  let ?e2 = "signal_alarm t (signal_signal e)"
  have eq: "find_history_item p h start t e = item_poll p (arrivals e) ?h2 ?e2"
    using assms(1,2) by (simp add: find_history_item_unfold)
  have "alarm ?e2 = Some t" using assms(1) by (simp add: signal_alarm_def signal_signal_def)
  with assms(3) item_poll_alarm [of p "arrivals e" ?h2 ?e2] show ?thesis
    by (simp add: eq)
qed

lemma find_history_sequence_alarm:
  assumes "alarm e = None"
  shows "alarm (snd (snd (find_history_sequence sps h start t e))) = None"
proof (cases sps)
  case Nil
  with assms show ?thesis by (simp add: find_history_sequence_unfold)
next
  case (Cons q qs)
  show ?thesis
  proof (cases "seq_scan q qs [] (initial_scan start h)")
    case (Return s)
    with Cons assms show ?thesis by (simp add: find_history_sequence_unfold)
  next
    case (Continue st)
    obtain p1 ps1 acc1 where st: "st = (p1, ps1, acc1)" by (cases st)
    show ?thesis
    proof (cases "t = 0")
      case True
      with Cons Continue st assms show ?thesis by (simp add: find_history_sequence_unfold)
    next
      case False
      with Cons Continue st have "find_history_sequence sps h start t e =
          seq_poll p1 ps1 acc1 (arrivals e) (h\<lparr>calls := calls h @ initial_calls start h\<rparr>)
            (signal_alarm t (signal_signal e))"
        by (simp add: find_history_sequence_unfold)
      then show ?thesis by (simp only: seq_poll_alarm)
    qed
  qed
qed

lemma find_history_count_alarm:
  assumes "alarm e = None"
  shows "alarm (snd (snd (find_history_count c h sp start t e))) = None"
proof (cases "get_count_pred c")
  case (Inl err)
  with assms show ?thesis by (simp add: find_history_count_unfold)
next
  case (Inr cp)
  let ?h2 = "h\<lparr>calls := calls h @ initial_calls start h\<rparr>"
  let ?objs = "case sp of None \<Rightarrow> initial_scan start h | Some q \<Rightarrow> filter q (initial_scan start h)"
  let ?sp1 = "case sp of None \<Rightarrow> always_true | Some q \<Rightarrow> q"
  show ?thesis
  proof (cases "cp (length ?objs) \<or> t = 0")
    case True
    with Inr have "snd (snd (find_history_count c h sp start t e)) = e"
      by (auto simp add: find_history_count_unfold Let_def)
    with assms show ?thesis by simp
  next
    case False
    obtain r h3 e3 where cpoll:
      "count_poll cp ?sp1 ?objs (arrivals e) ?h2 (signal_alarm t (signal_signal e)) = (r, h3, e3)"
      by (cases "count_poll cp ?sp1 ?objs (arrivals e) ?h2 (signal_alarm t (signal_signal e))")
    with False Inr have "snd (snd (find_history_count c h sp start t e)) = e3"
      by (simp add: find_history_count_unfold Let_def)
    moreover have "alarm e3 = None"
      using count_poll_alarm [of cp ?sp1 ?objs "arrivals e" ?h2 "signal_alarm t (signal_signal e)"]
        cpoll by simp
    ultimately show ?thesis by simp
  qed
qed


text \<open>
  C2. A deadline-bounded \<open>find_history_item\<close> that finds its record while polling
  returns through line 799 with the alarm still armed: \<open>signal.alarm(0)\<close> is not
  called on that path, unlike lines 851 and 911 of the two sibling searches. Here the
  history is empty, the search is called with \<open>start = "NOW"\<close> and \<open>timeout = 5\<close>,
  and the record \<open>7\<close> arrives before the first poll.
\<close>

theorem find_history_item_returns_with_alarm_armed:
  "find_history_item (\<lambda>x. x = (7::nat))
     \<lparr>objects = [], retrieved_cursor = 0, calls = []\<rparr> NOW 5
     \<lparr>alarm = None, handler = False, arrivals = [[7], []]\<rparr>
   = (Some 7,
      \<lparr>objects = [7], retrieved_cursor = 1,
        calls = [CallSize, CallRetrieve (Some 0), CallRetrieveNew]\<rparr>,
      \<lparr>alarm = Some 5, handler = True, arrivals = [[]]\<rparr>)"
  by (simp add: find_history_item_def resolve_start_def size_h_def retrieve_def
        retrieve_new_def data_callback_def signal_alarm_def signal_signal_def)

section \<open>Early exit of the count search\<close>

lemma filter_always_true: "filter always_true xs = xs"
  by (induction xs) (simp_all add: always_true_def)

lemma find_history_count_default_pred:
  "find_history_count c h None start t e = find_history_count c h (Some always_true) start t e"
  by (cases "get_count_pred c")
     (simp_all add: find_history_count_unfold Let_def filter_always_true)

lemma find_history_count_scan_return:
  assumes "get_count_pred c = Inr cp" and "cp (length (filter sp (initial_scan start h)))"
  shows "find_history_count c h (Some sp) start t e =
            (Inr (filter sp (initial_scan start h)),
             h\<lparr>calls := calls h @ initial_calls start h\<rparr>, e)"
  using assms by (simp add: find_history_count_unfold Let_def)

lemma find_history_count_polled_return:
  assumes c: "get_count_pred c = Inr cp" and t: "t \<noteq> 0"
    and i: "\<not> cp (length (filter sp (initial_scan start h)))"
    and a1: "0 < n"
    and a2: "n \<le> length (filter sp (concat (polled_batches
                   (h\<lparr>calls := calls h @ initial_calls start h\<rparr>) (arrivals e))))"
    and a3: "cp (length (filter sp (initial_scan start h)) + n)"
    and a4: "\<forall>j. 0 < j \<and> j < n \<longrightarrow> \<not> cp (length (filter sp (initial_scan start h)) + j)"
  shows "\<exists>h'. find_history_count c h (Some sp) start t e =
      (Inr (filter sp (initial_scan start h) @
            take n (filter sp (concat (polled_batches
                   (h\<lparr>calls := calls h @ initial_calls start h\<rparr>) (arrivals e))))),
       h',
       e\<lparr>handler := True, alarm := None,
         arrivals := drop (polls_needed sp n (polled_batches
                   (h\<lparr>calls := calls h @ initial_calls start h\<rparr>) (arrivals e))) (arrivals e)\<rparr>)"
proof -
  let ?init = "filter sp (initial_scan start h)"
  let ?h2 = "h\<lparr>calls := calls h @ initial_calls start h\<rparr>"
  let ?e2 = "signal_alarm t (signal_signal e)"
  let ?S = "filter sp (concat (polled_batches ?h2 (arrivals e)))"
  from count_poll_return [OF a1 a2 a3 a4, of ?e2] obtain h' where poll:
    "count_poll cp sp ?init (arrivals e) ?h2 ?e2 =
       (?init @ take n ?S, h',
        ?e2\<lparr>alarm := None, arrivals := drop (polls_needed sp n (polled_batches ?h2 (arrivals e))) (arrivals e)\<rparr>)"
    by blast
  have "find_history_count c h (Some sp) start t e =
      (Inr (?init @ take n ?S), h',
       ?e2\<lparr>alarm := None, arrivals := drop (polls_needed sp n (polled_batches ?h2 (arrivals e))) (arrivals e)\<rparr>)"
    using c t i by (simp add: find_history_count_unfold Let_def poll)
  then show ?thesis
    by (intro exI [of _ h']) (simp add: signal_alarm_def signal_signal_def)
qed

text \<open>
  C8. \<open>find_history_count\<close> with the item predicate left out behaves as with the
  predicate that is always true. It accumulates the records satisfying the item predicate,
  first those of the initial scan, then those returned by the polls. If the count predicate
  holds of the number of records of the initial scan, that list is returned at once, with
  no poll and the process state untouched. Otherwise, under a timeout, if the \<open>n\<close>-th
  polled matching record is the first to make the count predicate hold, the search returns
  the accumulator as it is then, cancels the alarm, and leaves unpolled every batch after
  the one that held that record.
\<close>

theorem find_history_count_early_exit:
  "find_history_count c h None start t e = find_history_count c h (Some always_true) start t e
   \<and> (get_count_pred c = Inr cp \<and> cp (length (filter sp (initial_scan start h)))
      \<longrightarrow> find_history_count c h (Some sp) start t e =
            (Inr (filter sp (initial_scan start h)),
             h\<lparr>calls := calls h @ initial_calls start h\<rparr>, e))
   \<and> (get_count_pred c = Inr cp \<and> t \<noteq> 0
        \<and> \<not> cp (length (filter sp (initial_scan start h)))
        \<and> 0 < n
        \<and> n \<le> length (filter sp (concat (polled_batches
                   (h\<lparr>calls := calls h @ initial_calls start h\<rparr>) (arrivals e))))
        \<and> cp (length (filter sp (initial_scan start h)) + n)
        \<and> (\<forall>j. 0 < j \<and> j < n \<longrightarrow> \<not> cp (length (filter sp (initial_scan start h)) + j))
      \<longrightarrow> fst (find_history_count c h (Some sp) start t e) =
            Inr (filter sp (initial_scan start h) @
                 take n (filter sp (concat (polled_batches
                   (h\<lparr>calls := calls h @ initial_calls start h\<rparr>) (arrivals e)))))
          \<and> alarm (snd (snd (find_history_count c h (Some sp) start t e))) = None
          \<and> arrivals (snd (snd (find_history_count c h (Some sp) start t e))) =
              drop (polls_needed sp n (polled_batches
                   (h\<lparr>calls := calls h @ initial_calls start h\<rparr>) (arrivals e)))
                (arrivals e))"
proof -
  let ?init = "filter sp (initial_scan start h)"
  let ?h2 = "h\<lparr>calls := calls h @ initial_calls start h\<rparr>"
  let ?S = "filter sp (concat (polled_batches ?h2 (arrivals e)))"
  let ?r = "find_history_count c h (Some sp) start t e"
  have A: "find_history_count c h None start t e = find_history_count c h (Some always_true) start t e"
    by (rule find_history_count_default_pred)
  have B: "get_count_pred c = Inr cp \<and> cp (length ?init) \<longrightarrow> ?r = (Inr ?init, ?h2, e)"
    using find_history_count_scan_return [of c cp sp start h t e] by blast
  have C: "get_count_pred c = Inr cp \<and> t \<noteq> 0 \<and> \<not> cp (length ?init) \<and> 0 < n \<and> n \<le> length ?S
        \<and> cp (length ?init + n) \<and> (\<forall>j. 0 < j \<and> j < n \<longrightarrow> \<not> cp (length ?init + j))
      \<longrightarrow> fst ?r = Inr (?init @ take n ?S) \<and> alarm (snd (snd ?r)) = None
          \<and> arrivals (snd (snd ?r)) = drop (polls_needed sp n (polled_batches ?h2 (arrivals e))) (arrivals e)"
  proof (rule impI)
    assume a: "get_count_pred c = Inr cp \<and> t \<noteq> 0 \<and> \<not> cp (length ?init) \<and> 0 < n \<and> n \<le> length ?S
        \<and> cp (length ?init + n) \<and> (\<forall>j. 0 < j \<and> j < n \<longrightarrow> \<not> cp (length ?init + j))"
    then have "\<exists>h'. ?r = (Inr (?init @ take n ?S), h',
       e\<lparr>handler := True, alarm := None,
         arrivals := drop (polls_needed sp n (polled_batches ?h2 (arrivals e))) (arrivals e)\<rparr>)"
      by (intro find_history_count_polled_return) blast+
    then obtain h' where "?r = (Inr (?init @ take n ?S), h',
       e\<lparr>handler := True, alarm := None,
         arrivals := drop (polls_needed sp n (polled_batches ?h2 (arrivals e))) (arrivals e)\<rparr>)"
      by blast
    then show "fst ?r = Inr (?init @ take n ?S) \<and> alarm (snd (snd ?r)) = None
          \<and> arrivals (snd (snd ?r)) = drop (polls_needed sp n (polled_batches ?h2 (arrivals e))) (arrivals e)"
      by simp
  qed
  from A B C show ?thesis by (intro conjI)
qed

theorem find_history_count_early_exit_witness:
  "fst (find_history_count (CountPred (\<lambda>len. 2 \<le> len))
          \<lparr>objects = [], retrieved_cursor = 0, calls = []\<rparr> (Some (\<lambda>x. True)) NOW 5
          \<lparr>alarm = None, handler = False, arrivals = [[1::nat], [2, 3], [4]]\<rparr>) = Inr [1, 2]
   \<and> alarm (snd (snd (find_history_count (CountPred (\<lambda>len. 2 \<le> len))
          \<lparr>objects = [], retrieved_cursor = 0, calls = []\<rparr> (Some (\<lambda>x. True)) NOW 5
          \<lparr>alarm = None, handler = False, arrivals = [[1::nat], [2, 3], [4]]\<rparr>))) = None
   \<and> arrivals (snd (snd (find_history_count (CountPred (\<lambda>len. 2 \<le> len))
          \<lparr>objects = [], retrieved_cursor = 0, calls = []\<rparr> (Some (\<lambda>x. True)) NOW 5
          \<lparr>alarm = None, handler = False, arrivals = [[1::nat], [2, 3], [4]]\<rparr>))) = [[4]]"
proof -
  let ?h = "\<lparr>objects = [] :: nat list, retrieved_cursor = 0, calls = []\<rparr>"
  let ?e = "\<lparr>alarm = None, handler = False, arrivals = [[1::nat], [2, 3], [4]]\<rparr>"
  let ?cp = "\<lambda>len::nat. 2 \<le> len"
  let ?sp = "\<lambda>x::nat. True"
  have i: "initial_scan NOW ?h = []" by (simp add: initial_scan_def)
  have u: "\<forall>j. 0 < j \<and> j < (2::nat) \<longrightarrow> \<not> ?cp (length (filter ?sp (initial_scan NOW ?h)) + j)"
    by (simp add: i)
  have hyp: "get_count_pred (CountPred ?cp) = Inr ?cp \<and> (5::nat) \<noteq> 0
        \<and> \<not> ?cp (length (filter ?sp (initial_scan NOW ?h)))
        \<and> 0 < (2::nat)
        \<and> 2 \<le> length (filter ?sp (concat (polled_batches
                   (?h\<lparr>calls := calls ?h @ initial_calls NOW ?h\<rparr>) (arrivals ?e))))
        \<and> ?cp (length (filter ?sp (initial_scan NOW ?h)) + 2)
        \<and> (\<forall>j. 0 < j \<and> j < (2::nat) \<longrightarrow> \<not> ?cp (length (filter ?sp (initial_scan NOW ?h)) + j))"
    using u by (simp add: get_count_pred_def i retrieve_new_def data_callback_def)
  from find_history_count_early_exit [of "CountPred ?cp" ?h NOW 5 ?e ?cp ?sp 2] hyp
  have "fst (find_history_count (CountPred ?cp) ?h (Some ?sp) NOW 5 ?e) =
            Inr (filter ?sp (initial_scan NOW ?h) @
                 take 2 (filter ?sp (concat (polled_batches
                   (?h\<lparr>calls := calls ?h @ initial_calls NOW ?h\<rparr>) (arrivals ?e)))))
          \<and> alarm (snd (snd (find_history_count (CountPred ?cp) ?h (Some ?sp) NOW 5 ?e))) = None
          \<and> arrivals (snd (snd (find_history_count (CountPred ?cp) ?h (Some ?sp) NOW 5 ?e))) =
              drop (polls_needed ?sp 2 (polled_batches
                   (?h\<lparr>calls := calls ?h @ initial_calls NOW ?h\<rparr>) (arrivals ?e)))
                (arrivals ?e)"
    by blast
  then show ?thesis by (simp add: i retrieve_new_def data_callback_def)
qed

section \<open>The sequence search is a greedy single pass\<close>

lemma seq_scan_cons_acc:
  "loop_list (seq_scan q qs (a # acc) xs) = a # loop_list (seq_scan q qs acc xs)"
proof (induction xs arbitrary: q qs acc)
  case Nil
  show ?case by simp
next
  case (Cons x xs)
  show ?case
  proof (cases "q x")
    case False
    then show ?thesis by (simp add: Cons.IH)
  next
    case True
    then show ?thesis by (cases qs) (simp_all add: Cons.IH)
  qed
qed

lemma find_history_sequence_immediate_eq:
  "fst (find_history_sequence (p # ps) h start 0 e) =
     loop_list (seq_scan p ps [] (initial_scan start h))"
proof (cases "seq_scan p ps [] (initial_scan start h)")
  case (Return s)
  then show ?thesis by (simp add: find_history_sequence_unfold)
next
  case (Continue st)
  obtain p1 ps1 acc1 where "st = (p1, ps1, acc1)" by (cases st)
  with Continue show ?thesis by (simp add: find_history_sequence_unfold)
qed

lemma find_history_sequence_skip:
  assumes "\<not> p x"
  shows "fst (find_history_sequence (p # ps) (h\<lparr>objects := x # xs\<rparr>) FromStart 0 e) =
         fst (find_history_sequence (p # ps) (h\<lparr>objects := xs\<rparr>) FromStart 0 e)"
  using assms by (simp add: find_history_sequence_immediate_eq initial_scan_def)

lemma find_history_sequence_advance:
  assumes "p x" and "ps \<noteq> []"
  shows "fst (find_history_sequence (p # ps) (h\<lparr>objects := x # xs\<rparr>) FromStart 0 e) =
         x # fst (find_history_sequence ps (h\<lparr>objects := xs\<rparr>) FromStart 0 e)"
proof -
  obtain q qs where ps: "ps = q # qs" using assms(2) by (cases ps) simp_all
  have "loop_list (seq_scan q qs [x] xs) = x # loop_list (seq_scan q qs [] xs)"
    by (rule seq_scan_cons_acc)
  with assms(1) ps show ?thesis
    by (simp add: find_history_sequence_immediate_eq initial_scan_def)
qed

lemma find_history_sequence_last:
  assumes "p x"
  shows "fst (find_history_sequence [p] (h\<lparr>objects := x # xs\<rparr>) FromStart 0 e) = [x]"
  using assms by (simp add: find_history_sequence_immediate_eq initial_scan_def)

lemma find_history_sequence_length:
  assumes "sps \<noteq> []"
  shows "length (fst (find_history_sequence sps h start t e)) \<le> length sps"
proof (cases "t = 0")
  case True
  with assms show ?thesis
    by (simp add: find_history_sequence_immediate_greedy greedy_match_length)
next
  case False
  with assms show ?thesis
    by (simp add: find_history_sequence_polled_greedy greedy_match_length)
qed

lemma find_history_sequence_satisfies:
  assumes "sps \<noteq> []"
  shows "\<forall>k<length (fst (find_history_sequence sps h start t e)).
           (sps ! k) (fst (find_history_sequence sps h start t e) ! k)"
proof -
  have g: "\<forall>k<length (greedy_match sps 0 [] xs). (sps ! k) (greedy_match sps 0 [] xs ! k)" for xs
    by (rule greedy_match_satisfies) simp_all
  show ?thesis
  proof (cases "t = 0")
    case True
    with assms g show ?thesis by (simp add: find_history_sequence_immediate_greedy)
  next
    case False
    with assms g show ?thesis by (simp add: find_history_sequence_polled_greedy)
  qed
qed

text \<open>
  C4. For a non-empty list of predicates \<open>find_history_sequence\<close> is the single-pass
  greedy match of the specification, over the records of the initial scan and then, under a
  timeout, over the polled batches in arrival order. The result is never longer than the
  list of predicates, its \<open>k\<close>-th record satisfies the \<open>k\<close>-th predicate, and when the
  initial scan already matches every predicate the accumulator is returned at once with the
  process state untouched. Record by record: a record failing the current predicate is
  passed over, the result being that of the search without it, whatever later predicates
  it satisfies; a record satisfying the current predicate heads the result, and the rest of
  the result is the search for the remaining predicates among the records after it; a
  record satisfying the last predicate ends the search.
\<close>

theorem find_history_sequence_greedy:
  "sps \<noteq> [] \<longrightarrow>
     fst (find_history_sequence sps h start 0 e) = greedy_match sps 0 [] (initial_scan start h)
   \<and> (t \<noteq> 0 \<longrightarrow> fst (find_history_sequence sps h start t e) =
         greedy_match sps 0 []
           (initial_scan start h @
            concat (polled_batches (h\<lparr>calls := calls h @ initial_calls start h\<rparr>) (arrivals e))))
   \<and> length (fst (find_history_sequence sps h start t e)) \<le> length sps
   \<and> (\<forall>k<length (fst (find_history_sequence sps h start t e)).
         (sps ! k) (fst (find_history_sequence sps h start t e) ! k))
   \<and> (length (greedy_match sps 0 [] (initial_scan start h)) = length sps \<longrightarrow>
         find_history_sequence sps h start t e =
           (greedy_match sps 0 [] (initial_scan start h),
            h\<lparr>calls := calls h @ initial_calls start h\<rparr>, e))
   \<and> (\<not> p x \<longrightarrow>
         fst (find_history_sequence (p # ps) (h\<lparr>objects := x # xs\<rparr>) FromStart 0 e) =
         fst (find_history_sequence (p # ps) (h\<lparr>objects := xs\<rparr>) FromStart 0 e))
   \<and> (p x \<and> ps \<noteq> [] \<longrightarrow>
         fst (find_history_sequence (p # ps) (h\<lparr>objects := x # xs\<rparr>) FromStart 0 e) =
         x # fst (find_history_sequence ps (h\<lparr>objects := xs\<rparr>) FromStart 0 e))
   \<and> (p x \<longrightarrow>
         fst (find_history_sequence [p] (h\<lparr>objects := x # xs\<rparr>) FromStart 0 e) = [x])"
proof (rule impI)
  assume ne: "sps \<noteq> []"
  note 1 = find_history_sequence_immediate_greedy [OF ne, of h start e]
  have 2: "t \<noteq> 0 \<longrightarrow> fst (find_history_sequence sps h start t e) =
         greedy_match sps 0 []
           (initial_scan start h @
            concat (polled_batches (h\<lparr>calls := calls h @ initial_calls start h\<rparr>) (arrivals e)))"
    using find_history_sequence_polled_greedy [OF ne, of t h start e] by blast
  note 3 = find_history_sequence_length [OF ne, of h start t e]
  note 4 = find_history_sequence_satisfies [OF ne, of h start t e]
  have 5: "length (greedy_match sps 0 [] (initial_scan start h)) = length sps \<longrightarrow>
         find_history_sequence sps h start t e =
           (greedy_match sps 0 [] (initial_scan start h),
            h\<lparr>calls := calls h @ initial_calls start h\<rparr>, e)"
    using find_history_sequence_complete_at_once [OF ne, of start h t e] by blast
  have 6: "\<not> p x \<longrightarrow>
         fst (find_history_sequence (p # ps) (h\<lparr>objects := x # xs\<rparr>) FromStart 0 e) =
         fst (find_history_sequence (p # ps) (h\<lparr>objects := xs\<rparr>) FromStart 0 e)"
    by (simp add: find_history_sequence_skip)
  have 7: "p x \<and> ps \<noteq> [] \<longrightarrow>
         fst (find_history_sequence (p # ps) (h\<lparr>objects := x # xs\<rparr>) FromStart 0 e) =
         x # fst (find_history_sequence ps (h\<lparr>objects := xs\<rparr>) FromStart 0 e)"
    by (simp add: find_history_sequence_advance)
  have 8: "p x \<longrightarrow>
         fst (find_history_sequence [p] (h\<lparr>objects := x # xs\<rparr>) FromStart 0 e) = [x]"
    by (simp add: find_history_sequence_last)
  from 1 2 3 4 5 6 7 8
  show "fst (find_history_sequence sps h start 0 e) = greedy_match sps 0 [] (initial_scan start h)
   \<and> (t \<noteq> 0 \<longrightarrow> fst (find_history_sequence sps h start t e) =
         greedy_match sps 0 []
           (initial_scan start h @
            concat (polled_batches (h\<lparr>calls := calls h @ initial_calls start h\<rparr>) (arrivals e))))
   \<and> length (fst (find_history_sequence sps h start t e)) \<le> length sps
   \<and> (\<forall>k<length (fst (find_history_sequence sps h start t e)).
         (sps ! k) (fst (find_history_sequence sps h start t e) ! k))
   \<and> (length (greedy_match sps 0 [] (initial_scan start h)) = length sps \<longrightarrow>
         find_history_sequence sps h start t e =
           (greedy_match sps 0 [] (initial_scan start h),
            h\<lparr>calls := calls h @ initial_calls start h\<rparr>, e))
   \<and> (\<not> p x \<longrightarrow>
         fst (find_history_sequence (p # ps) (h\<lparr>objects := x # xs\<rparr>) FromStart 0 e) =
         fst (find_history_sequence (p # ps) (h\<lparr>objects := xs\<rparr>) FromStart 0 e))
   \<and> (p x \<and> ps \<noteq> [] \<longrightarrow>
         fst (find_history_sequence (p # ps) (h\<lparr>objects := x # xs\<rparr>) FromStart 0 e) =
         x # fst (find_history_sequence ps (h\<lparr>objects := xs\<rparr>) FromStart 0 e))
   \<and> (p x \<longrightarrow>
         fst (find_history_sequence [p] (h\<lparr>objects := x # xs\<rparr>) FromStart 0 e) = [x])"
    by (intro conjI)
qed

theorem find_history_sequence_greedy_witness:
  "fst (find_history_sequence [\<lambda>r. 10 \<le> r, \<lambda>r. even r]
          \<lparr>objects = [3::nat, 12, 4], retrieved_cursor = 0, calls = []\<rparr> FromStart 0
          \<lparr>alarm = None, handler = False, arrivals = []\<rparr>) = [12, 4]
   \<and> fst (find_history_sequence [\<lambda>r. 10 \<le> r, \<lambda>r. even r]
          \<lparr>objects = [3::nat, 12], retrieved_cursor = 2, calls = []\<rparr> FromStart 5
          \<lparr>alarm = None, handler = False, arrivals = [[7], [4, 6]]\<rparr>) = [12, 4]"
proof -
  let ?sps = "[\<lambda>r::nat. 10 \<le> r, \<lambda>r. even r]"
  let ?h = "\<lparr>objects = [3::nat, 12, 4], retrieved_cursor = 0, calls = []\<rparr>"
  let ?e = "\<lparr>alarm = None, handler = False, arrivals = [] :: nat list list\<rparr>"
  let ?h2 = "\<lparr>objects = [3::nat, 12], retrieved_cursor = 2, calls = []\<rparr>"
  let ?e2 = "\<lparr>alarm = None, handler = False, arrivals = [[7::nat], [4, 6]]\<rparr>"
  have ne: "?sps \<noteq> []" by simp
  from find_history_sequence_greedy [of ?sps ?h FromStart ?e 0] ne
  have "fst (find_history_sequence ?sps ?h FromStart 0 ?e) =
          greedy_match ?sps 0 [] (initial_scan FromStart ?h)"
    by blast
  then have a: "fst (find_history_sequence ?sps ?h FromStart 0 ?e) = [12, 4]"
    by (simp add: initial_scan_def)
  from find_history_sequence_greedy [of ?sps ?h2 FromStart ?e2 5] ne
  have "fst (find_history_sequence ?sps ?h2 FromStart 5 ?e2) =
         greedy_match ?sps 0 []
           (initial_scan FromStart ?h2 @
            concat (polled_batches (?h2\<lparr>calls := calls ?h2 @ initial_calls FromStart ?h2\<rparr>)
               (arrivals ?e2)))"
    by simp
  then have b: "fst (find_history_sequence ?sps ?h2 FromStart 5 ?e2) = [12, 4]"
    by (simp add: initial_scan_def retrieve_new_def data_callback_def)
  from a b show ?thesis by simp
qed

section \<open>The facade hands over its arguments in the wrong order\<close>

lemma translate_telemetry_name_error:
  "translate_telemetry_name pl n = Inl err \<Longrightarrow> err = KeyError"
  by (cases n) (simp_all split: option.splits)

lemma translate_event_name_error:
  "translate_event_name pl n = Inl err \<Longrightarrow> err = KeyError"
  by (cases n) (simp_all split: option.splits)

lemma await_telemetry_raises:
  "fst (await_telemetry pl th channel val time_pred history start timeout e) = Inl KeyError
   \<or> fst (await_telemetry pl th channel val time_pred history start timeout e) = Inl AttributeError"
proof (cases "get_telemetry_predicate pl channel val time_pred")
  case (Inl err)
  then have "err = KeyError"
    by (auto simp add: get_telemetry_predicate_def Let_def
          dest: translate_telemetry_name_error
          split: option.splits specifier.splits sum.splits)
  with Inl show ?thesis by (simp add: await_telemetry_def)
next
  case (Inr t_pred)
  then show ?thesis by (simp add: await_telemetry_def find_history_item_py_def)
qed

lemma await_event_raises:
  "fst (await_event pl eh event args time_pred history start timeout e) = Inl KeyError
   \<or> fst (await_event pl eh event args time_pred history start timeout e) = Inl AttributeError"
proof (cases "get_event_predicate pl event args time_pred")
  case (Inl err)
  then have "err = KeyError"
    by (auto simp add: get_event_predicate_def Let_def
          dest: translate_event_name_error
          split: option.splits specifier.splits sum.splits)
  with Inl show ?thesis by (simp add: await_event_def)
next
  case (Inr e_pred)
  then show ?thesis by (simp add: await_event_def find_history_item_py_def)
qed

text \<open>
  The sibling \<open>await_telemetry_sequence\<close>, whose call has the arguments in the order
  of the parameters, finds the record on the same history.
\<close>

lemma await_telemetry_sequence_finds:
  "fst (await_telemetry_sequence
     \<lparr>channel_name_dictionary = [''temp'' \<mapsto> 5], channel_id_dictionary = [5 \<mapsto> ''temp''],
      event_name_dictionary = [''boot'' \<mapsto> 9], event_id_dictionary = [9 \<mapsto> ''boot'']\<rparr>
     \<lparr>objects = [\<lparr>ch_id = 5, ch_val = 20::int, ch_time = \<lparr>seconds = 1, useconds = 0\<rparr>\<rparr>],
      retrieved_cursor = 0, calls = []\<rparr>
     [Name (Mnemonic ''temp'')] None FromStart 0
     \<lparr>alarm = None, handler = False, arrivals = []\<rparr>)
   = Inr [\<lparr>ch_id = 5, ch_val = 20, ch_time = \<lparr>seconds = 1, useconds = 0\<rparr>\<rparr>]"
  by (simp add: await_telemetry_sequence_def get_telemetry_predicate_def
        find_history_sequence_def resolve_start_def retrieve_def telemetry_predicate_def
        equal_to_def)

text \<open>
  C1. \<open>await_telemetry\<close> and \<open>await_event\<close> build the kind predicate and select
  the history, but hand them to \<open>find_history_item\<close> in the order history, predicate,
  while its parameters are \<open>search_pred, history\<close>. Here a telemetry history holds an
  update of channel \<open>temp\<close> (identifier 5) and is searched from its start with
  \<open>timeout = 0\<close> for that channel: the call ends in AttributeError, although the item
  search with the predicate and the history in their places finds the record. The same
  happens for an event history holding event 9.
\<close>

theorem await_passes_history_as_predicate:
  "await_telemetry
     \<lparr>channel_name_dictionary = [''temp'' \<mapsto> 5], channel_id_dictionary = [5 \<mapsto> ''temp''],
      event_name_dictionary = [''boot'' \<mapsto> 9], event_id_dictionary = [9 \<mapsto> ''boot'']\<rparr>
     \<lparr>objects = [\<lparr>ch_id = 5, ch_val = 20::int, ch_time = \<lparr>seconds = 1, useconds = 0\<rparr>\<rparr>],
      retrieved_cursor = 0, calls = []\<rparr>
     (Some (Name (Mnemonic ''temp''))) None None None FromStart 0
     \<lparr>alarm = None, handler = False, arrivals = []\<rparr>
   = (Inl AttributeError,
      \<lparr>objects = [\<lparr>ch_id = 5, ch_val = 20, ch_time = \<lparr>seconds = 1, useconds = 0\<rparr>\<rparr>],
       retrieved_cursor = 0, calls = []\<rparr>,
      \<lparr>alarm = None, handler = False, arrivals = []\<rparr>)
   \<and> fst (find_history_item (telemetry_predicate (Some (equal_to 5)) None None)
       \<lparr>objects = [\<lparr>ch_id = 5, ch_val = 20::int, ch_time = \<lparr>seconds = 1, useconds = 0\<rparr>\<rparr>],
        retrieved_cursor = 0, calls = []\<rparr>
       FromStart 0 \<lparr>alarm = None, handler = False, arrivals = []\<rparr>)
     = Some \<lparr>ch_id = 5, ch_val = 20, ch_time = \<lparr>seconds = 1, useconds = 0\<rparr>\<rparr>
   \<and> await_event
     \<lparr>channel_name_dictionary = [''temp'' \<mapsto> 5], channel_id_dictionary = [5 \<mapsto> ''temp''],
      event_name_dictionary = [''boot'' \<mapsto> 9], event_id_dictionary = [9 \<mapsto> ''boot'']\<rparr>
     \<lparr>objects = [\<lparr>ev_id = 9, ev_args = [1::int], ev_time = \<lparr>seconds = 1, useconds = 0\<rparr>\<rparr>],
      retrieved_cursor = 0, calls = []\<rparr>
     (Some (Name (Ident 9))) None None None FromStart 0
     \<lparr>alarm = None, handler = False, arrivals = []\<rparr>
   = (Inl AttributeError,
      \<lparr>objects = [\<lparr>ev_id = 9, ev_args = [1], ev_time = \<lparr>seconds = 1, useconds = 0\<rparr>\<rparr>],
       retrieved_cursor = 0, calls = []\<rparr>,
      \<lparr>alarm = None, handler = False, arrivals = []\<rparr>)
   \<and> fst (find_history_item (event_predicate (Some (equal_to 9)) None None)
       \<lparr>objects = [\<lparr>ev_id = 9, ev_args = [1::int], ev_time = \<lparr>seconds = 1, useconds = 0\<rparr>\<rparr>],
        retrieved_cursor = 0, calls = []\<rparr>
       FromStart 0 \<lparr>alarm = None, handler = False, arrivals = []\<rparr>)
     = Some \<lparr>ev_id = 9, ev_args = [1], ev_time = \<lparr>seconds = 1, useconds = 0\<rparr>\<rparr>"
proof (intro conjI)
  show "await_telemetry
     \<lparr>channel_name_dictionary = [''temp'' \<mapsto> 5], channel_id_dictionary = [5 \<mapsto> ''temp''],
      event_name_dictionary = [''boot'' \<mapsto> 9], event_id_dictionary = [9 \<mapsto> ''boot'']\<rparr>
     \<lparr>objects = [\<lparr>ch_id = 5, ch_val = 20::int, ch_time = \<lparr>seconds = 1, useconds = 0\<rparr>\<rparr>],
      retrieved_cursor = 0, calls = []\<rparr>
     (Some (Name (Mnemonic ''temp''))) None None None FromStart 0
     \<lparr>alarm = None, handler = False, arrivals = []\<rparr>
   = (Inl AttributeError,
      \<lparr>objects = [\<lparr>ch_id = 5, ch_val = 20, ch_time = \<lparr>seconds = 1, useconds = 0\<rparr>\<rparr>],
       retrieved_cursor = 0, calls = []\<rparr>,
      \<lparr>alarm = None, handler = False, arrivals = []\<rparr>)"
    by (simp add: await_telemetry_def get_telemetry_predicate_def find_history_item_py_def)
  show "fst (find_history_item (telemetry_predicate (Some (equal_to 5)) None None)
       \<lparr>objects = [\<lparr>ch_id = 5, ch_val = 20::int, ch_time = \<lparr>seconds = 1, useconds = 0\<rparr>\<rparr>],
        retrieved_cursor = 0, calls = []\<rparr>
       FromStart 0 \<lparr>alarm = None, handler = False, arrivals = []\<rparr>)
     = Some \<lparr>ch_id = 5, ch_val = 20, ch_time = \<lparr>seconds = 1, useconds = 0\<rparr>\<rparr>"
    by (simp add: item_immediate_eq initial_scan_def telemetry_predicate_def
          equal_to_def)
  show "await_event
     \<lparr>channel_name_dictionary = [''temp'' \<mapsto> 5], channel_id_dictionary = [5 \<mapsto> ''temp''],
      event_name_dictionary = [''boot'' \<mapsto> 9], event_id_dictionary = [9 \<mapsto> ''boot'']\<rparr>
     \<lparr>objects = [\<lparr>ev_id = 9, ev_args = [1::int], ev_time = \<lparr>seconds = 1, useconds = 0\<rparr>\<rparr>],
      retrieved_cursor = 0, calls = []\<rparr>
     (Some (Name (Ident 9))) None None None FromStart 0
     \<lparr>alarm = None, handler = False, arrivals = []\<rparr>
   = (Inl AttributeError,
      \<lparr>objects = [\<lparr>ev_id = 9, ev_args = [1], ev_time = \<lparr>seconds = 1, useconds = 0\<rparr>\<rparr>],
       retrieved_cursor = 0, calls = []\<rparr>,
      \<lparr>alarm = None, handler = False, arrivals = []\<rparr>)"
    by (simp add: await_event_def get_event_predicate_def find_history_item_py_def)
  show "fst (find_history_item (event_predicate (Some (equal_to 9)) None None)
       \<lparr>objects = [\<lparr>ev_id = 9, ev_args = [1::int], ev_time = \<lparr>seconds = 1, useconds = 0\<rparr>\<rparr>],
        retrieved_cursor = 0, calls = []\<rparr>
       FromStart 0 \<lparr>alarm = None, handler = False, arrivals = []\<rparr>)
     = Some \<lparr>ev_id = 9, ev_args = [1], ev_time = \<lparr>seconds = 1, useconds = 0\<rparr>\<rparr>"
    by (simp add: item_immediate_eq initial_scan_def event_predicate_def
          equal_to_def)
qed

section \<open>The latest time never decreases\<close>

lemma get_latest_fsw_time_value:
  "latest_time (snd (get_latest_fsw_time epoch a)) =
     max (if objects (aggregate_event_history a) = [] then useconds epoch
          else useconds (ev_time (last (objects (aggregate_event_history a)))))
       (max (if objects (aggregate_telemetry_history a) = [] then useconds epoch
             else useconds (ch_time (last (objects (aggregate_telemetry_history a)))))
          (latest_time a))"
  by (simp add: get_latest_fsw_time_def retrieve_def Let_def)

lemma get_latest_fsw_time_returns:
  "fst (get_latest_fsw_time epoch a) = latest_time (snd (get_latest_fsw_time epoch a))"
  by (simp add: get_latest_fsw_time_def retrieve_def Let_def)

lemma get_latest_fsw_time_mono:
  "latest_time a \<le> latest_time (snd (get_latest_fsw_time epoch a))"
  by (simp add: get_latest_fsw_time_value)

lemma clear_histories_latest_time: "latest_time (clear_histories ts a) = latest_time a"
  by (cases ts) (simp_all add: clear_histories_def Let_def)

lemma log_test_message_latest_time: "latest_time (log_test_message msg a) = latest_time a"
  by (cases "logger a") (simp_all add: log_test_message_def)

lemma start_test_case_latest_time:
  "latest_time (start_test_case epoch name a) = latest_time (snd (get_latest_fsw_time epoch a))"
  by (simp add: start_test_case_def Let_def clear_histories_latest_time
        log_test_message_latest_time split: prod.splits)

lemma teardown_latest_time: "latest_time (teardown a) = latest_time a"
  by (cases "logger (clear_histories None a)")
     (simp_all add: teardown_def Let_def clear_histories_latest_time)

lemma api_step_mono: "latest_time a \<le> latest_time (snd (api_step epoch op a))"
proof (cases op)
  case GetLatestFswTime
  then show ?thesis
    using get_latest_fsw_time_mono [of a epoch] by (auto split: prod.splits)
next
  case (StartTestCase name)
  then show ?thesis
    using get_latest_fsw_time_mono [of a epoch] by (simp add: start_test_case_latest_time)
next
  case (ClearHistories ts)
  then show ?thesis by (simp add: clear_histories_latest_time)
next
  case Teardown
  then show ?thesis by (simp add: teardown_latest_time)
next
  case (LogTestMessage msg)
  then show ?thesis by (simp add: log_test_message_latest_time)
qed simp_all

lemma api_step_returns:
  "fst (api_step epoch op a) = Some t \<Longrightarrow> t = latest_time (snd (api_step epoch op a))"
  using get_latest_fsw_time_returns [of epoch a]
  by (cases op) (simp_all split: prod.splits)

lemma api_run_mono: "latest_time a \<le> latest_time (snd (api_run epoch ops a))"
proof (induction ops arbitrary: a)
  case Nil
  show ?case by simp
next
  case (Cons op ops)
  obtain r a1 where s: "api_step epoch op a = (r, a1)" by (cases "api_step epoch op a")
  obtain rs a2 where rn: "api_run epoch ops a1 = (rs, a2)" by (cases "api_run epoch ops a1")
  have "latest_time a \<le> latest_time a1" using api_step_mono [of a epoch op] s by simp
  moreover have "latest_time a1 \<le> latest_time a2" using Cons.IH [of a1] rn by simp
  ultimately show ?case using s rn by simp
qed

lemma api_run_returns_bounds:
  "t \<in> set (fst (api_run epoch ops a)) \<Longrightarrow>
     latest_time a \<le> t \<and> t \<le> latest_time (snd (api_run epoch ops a))"
proof (induction ops arbitrary: a)
  case Nil
  then show ?case by simp
next
  case (Cons op ops)
  obtain r a1 where s: "api_step epoch op a = (r, a1)" by (cases "api_step epoch op a")
  obtain rs a2 where rn: "api_run epoch ops a1 = (rs, a2)" by (cases "api_run epoch ops a1")
  have m1: "latest_time a \<le> latest_time a1" using api_step_mono [of a epoch op] s by simp
  have m2: "latest_time a1 \<le> latest_time a2" using api_run_mono [of a1 epoch ops] rn by simp
  from Cons.prems s rn have "(r = Some t) \<or> t \<in> set rs"
    by (cases r) auto
  then show ?case
  proof
    assume "r = Some t"
    then have "t = latest_time a1" using api_step_returns [of epoch op a t] s by simp
    with m1 m2 s rn show ?thesis by simp
  next
    assume "t \<in> set rs"
    then have "latest_time a1 \<le> t \<and> t \<le> latest_time a2"
      using Cons.IH [of a1] rn by simp
    with m1 s rn show ?thesis by simp
  qed
qed

lemma api_run_returns_sorted: "sorted (fst (api_run epoch ops a))"
proof (induction ops arbitrary: a)
  case Nil
  show ?case by simp
next
  case (Cons op ops)
  obtain r a1 where s: "api_step epoch op a = (r, a1)" by (cases "api_step epoch op a")
  obtain rs a2 where rn: "api_run epoch ops a1 = (rs, a2)" by (cases "api_run epoch ops a1")
  have srt: "sorted rs" using Cons.IH [of a1] rn by simp
  show ?case
  proof (cases r)
    case None
    with s rn srt show ?thesis by simp
  next
    case (Some t)
    then have "t = latest_time a1" using api_step_returns [of epoch op a t] s by simp
    then have "\<forall>u\<in>set rs. t \<le> u"
      using api_run_returns_bounds [of _ epoch ops a1] rn by simp
    with Some s rn srt show ?thesis by simp
  qed
qed

text \<open>
  C10. \<open>get_latest_fsw_time\<close> sets \<open>latest_time\<close> to the maximum of the time of the
  last aggregate event, the time of the last aggregate telemetry update (each replaced by
  \<open>TimeType().useconds\<close> when its history is empty) and the previous
  \<open>latest_time\<close>, and returns that value. No operation decreases \<open>latest_time\<close>,
  so over any run of operations on one instance it never decreases, the values returned
  by \<open>get_latest_fsw_time\<close> are in non-decreasing order, and each lies between the
  \<open>latest_time\<close> the run starts with and the one it ends with.
\<close>

theorem latest_time_never_decreases:
  "latest_time (snd (get_latest_fsw_time epoch a)) =
     max (if objects (aggregate_event_history a) = [] then useconds epoch
          else useconds (ev_time (last (objects (aggregate_event_history a)))))
       (max (if objects (aggregate_telemetry_history a) = [] then useconds epoch
             else useconds (ch_time (last (objects (aggregate_telemetry_history a)))))
          (latest_time a))
   \<and> fst (get_latest_fsw_time epoch a) = latest_time (snd (get_latest_fsw_time epoch a))
   \<and> latest_time a \<le> latest_time (snd (api_step epoch op a))
   \<and> latest_time a \<le> latest_time (snd (api_run epoch ops a))
   \<and> sorted (fst (api_run epoch ops a))
   \<and> (\<forall>t\<in>set (fst (api_run epoch ops a)).
         latest_time a \<le> t \<and> t \<le> latest_time (snd (api_run epoch ops a)))"
  using get_latest_fsw_time_value [of epoch a] get_latest_fsw_time_returns [of epoch a]
    api_step_mono [of a epoch op] api_run_mono [of a epoch ops]
    api_run_returns_sorted [of epoch ops a] api_run_returns_bounds [of _ epoch ops a]
  by blast


theorem latest_time_never_decreases_witness:
  "fst (api_run \<lparr>seconds = 0, useconds = 0\<rparr>
          [ReceiveEvent \<lparr>ev_id = 9, ev_args = [1::int], ev_time = \<lparr>seconds = 4, useconds = 300\<rparr>\<rparr>,
           GetLatestFswTime, AggregateHistoriesCleared, GetLatestFswTime]
          (api_init \<lparr>seconds = 0, useconds = 0\<rparr>
             \<lparr>objects = [], retrieved_cursor = 0, calls = []\<rparr>
             \<lparr>objects = [], retrieved_cursor = 0, calls = []\<rparr> False)) = [300, 300]
   \<and> latest_time (api_init \<lparr>seconds = 0, useconds = 0\<rparr>
             \<lparr>objects = [], retrieved_cursor = 0, calls = []\<rparr>
             \<lparr>objects = [] :: int event_data list, retrieved_cursor = 0, calls = []\<rparr> False) \<le> 300
   \<and> 300 \<le> latest_time (snd (api_run \<lparr>seconds = 0, useconds = 0\<rparr>
          [ReceiveEvent \<lparr>ev_id = 9, ev_args = [1::int], ev_time = \<lparr>seconds = 4, useconds = 300\<rparr>\<rparr>,
           GetLatestFswTime, AggregateHistoriesCleared, GetLatestFswTime]
          (api_init \<lparr>seconds = 0, useconds = 0\<rparr>
             \<lparr>objects = [], retrieved_cursor = 0, calls = []\<rparr>
             \<lparr>objects = [], retrieved_cursor = 0, calls = []\<rparr> False)))"
proof -
  let ?epoch = "\<lparr>seconds = 0, useconds = 0\<rparr>"
  let ?ops = "[ReceiveEvent \<lparr>ev_id = 9, ev_args = [1::int], ev_time = \<lparr>seconds = 4, useconds = 300\<rparr>\<rparr>,
           GetLatestFswTime, AggregateHistoriesCleared, GetLatestFswTime]"
  let ?a = "api_init ?epoch \<lparr>objects = [], retrieved_cursor = 0, calls = []\<rparr>
             \<lparr>objects = [] :: int event_data list, retrieved_cursor = 0, calls = []\<rparr> False
             :: int api"
  have run: "fst (api_run ?epoch ?ops ?a) = [300, 300]"
    by (simp add: api_init_def get_latest_fsw_time_def retrieve_def data_callback_def
          clear_def Let_def)
  then have mem: "300 \<in> set (fst (api_run ?epoch ?ops ?a))" by simp
  from latest_time_never_decreases [of ?epoch ?a GetLatestFswTime ?ops]
  have "\<forall>t\<in>set (fst (api_run ?epoch ?ops ?a)).
         latest_time ?a \<le> t \<and> t \<le> latest_time (snd (api_run ?epoch ?ops ?a))"
    by blast
  with mem have "latest_time ?a \<le> 300 \<and> 300 \<le> latest_time (snd (api_run ?epoch ?ops ?a))"
    by blast
  with run show ?thesis by blast
qed

end
